theory Spec2Isabelle
  imports Complex_Main
begin

section \<open>Python strings\<close>

text \<open>
  A Python \<open>str\<close> is modelled as a \<open>string\<close> whose characters are read as code points
  below 256.  \<open>py_isspace\<close> is \<open>str.isspace\<close> on one such code point: the characters that
  \<open>str.strip()\<close> and \<open>str.split()\<close> treat as whitespace.
\<close>

definition py_isspace :: "char \<Rightarrow> bool" where
  "py_isspace c = ((of_char c :: nat) \<in> {9, 10, 11, 12, 13, 28, 29, 30, 31, 32, 133, 160})"

definition py_lstrip :: "string \<Rightarrow> string" where
  "py_lstrip s = dropWhile py_isspace s"

definition py_rstrip :: "string \<Rightarrow> string" where
  "py_rstrip s = rev (dropWhile py_isspace (rev s))"

definition py_strip :: "string \<Rightarrow> string" where
  "py_strip s = py_lstrip (py_rstrip s)"

text \<open>\<open>sep.join(xs)\<close>.\<close>

fun py_join :: "string \<Rightarrow> string list \<Rightarrow> string" where
  "py_join sep [] = []"
| "py_join sep [x] = x"
| "py_join sep (x # y # ys) = x @ sep @ py_join sep (y # ys)"

section \<open>parser.py: coalescing and turn pairs\<close>

text \<open>
  A message is the dict built by \<open>reconstruct_conversation\<close>; the functions below read the
  keys \<open>composer_id\<close>, \<open>role\<close> and \<open>text\<close> (here \<open>msg_text\<close>) of it, every other key is carried along in
  \<open>more\<close>.
\<close>

record message =
  composer_id :: string
  role :: string
  msg_text :: string

text \<open>\<open>_is_nonempty(text) = bool(text and text.strip())\<close>.\<close>

definition is_nonempty :: "string \<Rightarrow> bool" where
  "is_nonempty t = (t \<noteq> [] \<and> py_strip t \<noteq> [])"

text \<open>
  The loop of \<open>coalesce_assistant_runs\<close>: the state is the list \<open>coalesced\<close> and
  \<open>pending_assistant\<close>.
\<close>

fun coalesce_loop :: "'a message_scheme list \<Rightarrow> 'a message_scheme list \<Rightarrow> 'a message_scheme option
    \<Rightarrow> 'a message_scheme list \<times> 'a message_scheme option" where
  "coalesce_loop [] coalesced pending = (coalesced, pending)"
| "coalesce_loop (m # ms) coalesced pending =
     (if role m = ''assistant'' then
        (if \<not> is_nonempty (msg_text m) then coalesce_loop ms coalesced pending
         else (case pending of
                 None \<Rightarrow> coalesce_loop ms coalesced (Some m)
               | Some p \<Rightarrow> coalesce_loop ms coalesced
                   (Some (p\<lparr>msg_text := py_strip (msg_text p @ ''\<newline>\<newline>'' @ msg_text m)\<rparr>))))
      else
        (case pending of
           None \<Rightarrow> coalesce_loop ms (coalesced @ [m]) None
         | Some p \<Rightarrow> coalesce_loop ms (coalesced @ [p] @ [m]) None))"

definition coalesce_assistant_runs :: "'a message_scheme list \<Rightarrow> 'a message_scheme list" where
  "coalesce_assistant_runs messages =
     (case coalesce_loop messages [] None of
        (coalesced, None) \<Rightarrow> coalesced
      | (coalesced, Some p) \<Rightarrow> coalesced @ [p])"

record turn_pair =
  pair_composer_id :: string
  turn_index :: nat
  user :: string
  assistant :: string

text \<open>
  The loop of \<open>build_qa_pairs\<close>: the state is \<open>pairs\<close>, \<open>current_user\<close>,
  \<open>current_assistant_text\<close> and \<open>turn_index\<close>.
\<close>

record 'a qa_state =
  pairs :: "turn_pair list"
  current_user :: "'a message_scheme option"
  current_assistant_text :: "string list"
  next_turn :: nat

definition qa_step :: "'a message_scheme \<Rightarrow> 'a qa_state \<Rightarrow> 'a qa_state" where
  "qa_step m s =
     (if role m = ''user'' then
        (let s' =
           (if current_user s \<noteq> None \<or> current_assistant_text s \<noteq> [] then
              s\<lparr>pairs := pairs s @
                   [\<lparr>pair_composer_id =
                       (case current_user s of Some u \<Rightarrow> composer_id u | None \<Rightarrow> composer_id m),
                     turn_index = next_turn s,
                     user = (case current_user s of Some u \<Rightarrow> msg_text u | None \<Rightarrow> []),
                     assistant = py_strip (py_join ''\<newline>\<newline>'' (current_assistant_text s))\<rparr>],
                 next_turn := next_turn s + 1\<rparr>
            else s)
         in s'\<lparr>current_user := Some m, current_assistant_text := []\<rparr>)
      else if role m = ''assistant'' then
        (if is_nonempty (msg_text m)
         then s\<lparr>current_assistant_text := current_assistant_text s @ [msg_text m]\<rparr>
         else s)
      else s)"

fun qa_loop :: "'a message_scheme list \<Rightarrow> 'a qa_state \<Rightarrow> 'a qa_state" where
  "qa_loop [] s = s"
| "qa_loop (m # ms) s = qa_loop ms (qa_step m s)"

definition qa_finalize :: "'a message_scheme list \<Rightarrow> 'a qa_state \<Rightarrow> turn_pair list" where
  "qa_finalize messages s =
     (if current_user s \<noteq> None \<or> current_assistant_text s \<noteq> [] then
        pairs s @
          [\<lparr>pair_composer_id =
              (case current_user s of
                 Some u \<Rightarrow> composer_id u
               | None \<Rightarrow> (case messages of [] \<Rightarrow> [] | m0 # _ \<Rightarrow> composer_id m0)),
            turn_index = next_turn s,
            user = (case current_user s of Some u \<Rightarrow> msg_text u | None \<Rightarrow> []),
            assistant = py_strip (py_join ''\<newline>\<newline>'' (current_assistant_text s))\<rparr>]
      else pairs s)"

definition build_qa_pairs :: "'a message_scheme list \<Rightarrow> turn_pair list" where
  "build_qa_pairs messages =
     qa_finalize messages
       (qa_loop (coalesce_assistant_runs messages)
          \<lparr>pairs = [], current_user = None, current_assistant_text = [], next_turn = 0\<rparr>)"

text \<open>
  \<open>n\<close> alternating user/assistant messages: the roles are user, assistant, user, ... from
  the first message on.
\<close>

fun alternating :: "'a message_scheme list \<Rightarrow> bool" where
  "alternating [] = True"
| "alternating [u] = (role u = ''user'')"
| "alternating (u # a # ms) = (role u = ''user'' \<and> role a = ''assistant'' \<and> alternating ms)"

section \<open>rag.py: the sparse scorer\<close>

text \<open>
  \<open>str.lower()\<close> on one code point below 256: the ASCII capitals and the Latin-1 capitals
  (\<open>0xC0\<close> to \<open>0xDE\<close> without the multiplication sign \<open>0xD7\<close>) move up by 32.
\<close>

definition py_lower_char :: "char \<Rightarrow> char" where
  "py_lower_char c =
     (let n = (of_char c :: nat)
      in if (65 \<le> n \<and> n \<le> 90) \<or> (192 \<le> n \<and> n \<le> 222 \<and> n \<noteq> 215)
         then char_of (n + 32) else c)"

definition py_lower :: "string \<Rightarrow> string" where
  "py_lower s = map py_lower_char s"

text \<open>
  \<open>str.split()\<close> without argument: the maximal runs of non-whitespace characters, in order.
  \<open>cur\<close> is the run being read.
\<close>

fun split_ws :: "string \<Rightarrow> string \<Rightarrow> string list" where
  "split_ws cur [] = (if cur = [] then [] else [cur])"
| "split_ws cur (c # cs) =
     (if py_isspace c then (if cur = [] then split_ws [] cs else cur # split_ws [] cs)
      else split_ws (cur @ [c]) cs)"

definition py_split :: "string \<Rightarrow> string list" where
  "py_split s = split_ws [] s"

text \<open>\<open>tok in s\<close> on strings: \<open>tok\<close> occurs in \<open>s\<close> as a contiguous substring.\<close>

fun starts_with :: "string \<Rightarrow> string \<Rightarrow> bool" where
  "starts_with s [] = True"
| "starts_with [] (t # ts) = False"
| "starts_with (c # cs) (t # ts) = (c = t \<and> starts_with cs ts)"

fun py_contains :: "string \<Rightarrow> string \<Rightarrow> bool" where
  "py_contains tok [] = (tok = [])"
| "py_contains tok (c # cs) = (starts_with (c # cs) tok \<or> py_contains tok cs)"

text \<open>
  \<open>_score(query, text)\<close>: \<open>sum(1 for token in q if token and token in low)\<close>.  The argument
  \<open>text\<close> is a string, on which \<open>text or ""\<close> is the identity.
\<close>

definition score :: "string \<Rightarrow> string \<Rightarrow> int" where
  "score query txt =
     (let q = py_split (py_lower query);
          low = py_lower txt
      in sum_list (map (\<lambda>token. 1) (filter (\<lambda>token. token \<noteq> [] \<and> py_contains token low) q)))"

section \<open>Python exceptions\<close>

text \<open>
  A function that can raise returns \<open>py_error + 'a\<close>: \<open>Inl\<close> carries the exception that
  leaves the function, \<open>Inr\<close> the value returned.
\<close>

datatype py_error =
  ZeroDivisionError | IndexError | AttributeError | TypeError | ValueError | OperationalError

text \<open>A list comprehension whose element expression can raise: the first exception wins.\<close>

fun map_raise :: "('a \<Rightarrow> py_error + 'b) \<Rightarrow> 'a list \<Rightarrow> py_error + 'b list" where
  "map_raise f [] = Inr []"
| "map_raise f (x # xs) =
     (case f x of
        Inl e \<Rightarrow> Inl e
      | Inr y \<Rightarrow> (case map_raise f xs of Inl e \<Rightarrow> Inl e | Inr ys \<Rightarrow> Inr (y # ys)))"

section \<open>embeddings.py: L2 normalisation\<close>

text \<open>
  Floats are modelled by the reals (exact arithmetic).  \<open>x / den\<close> raises
  \<open>ZeroDivisionError\<close> on a zero divisor; \<open>sum_sq ** 0.5\<close> is the square root, taken only
  of a positive number.
\<close>

definition py_truediv :: "real \<Rightarrow> real \<Rightarrow> py_error + real" where
  "py_truediv x den = (if den = 0 then Inl ZeroDivisionError else Inr (x / den))"

definition l2_normalize :: "real list \<Rightarrow> py_error + real list" where
  "l2_normalize vec =
     (let sum_sq = sum_list (map (\<lambda>x. x * x) vec)
      in if sum_sq \<le> 0 then Inr vec
         else (let den = sqrt sum_sq
               in if den = 0 then Inr vec
                  else map_raise (\<lambda>x. py_truediv x den) vec))"

section \<open>cluster.py: bisecting 2-means\<close>

text \<open>\<open>xs[i]\<close> on a list: a negative index counts from the end, an index out of range raises.\<close>

definition py_index :: "'a list \<Rightarrow> int \<Rightarrow> py_error + 'a" where
  "py_index xs i =
     (if 0 \<le> i \<and> i < int (length xs) then Inr (xs ! nat i)
      else if i < 0 \<and> - int (length xs) \<le> i then Inr (xs ! nat (int (length xs) + i))
      else Inl IndexError)"

text \<open>\<open>sum(x*y for x,y in zip(v, c))\<close>; \<open>zip\<close> stops at the shorter list.\<close>

definition dot :: "real list \<Rightarrow> real list \<Rightarrow> real" where
  "dot v c = sum_list (map (\<lambda>(x, y). x * y) (zip v c))"

text \<open>The assignment pass of \<open>_kmeans2\<close>: cluster 0 if \<open>d0 <= d1\<close>, else cluster 1.\<close>

definition assign_pass :: "real list list \<Rightarrow> real list \<Rightarrow> real list \<Rightarrow> nat list" where
  "assign_pass vecs c0 c1 =
     map (\<lambda>v. if 1 - dot v c0 \<le> 1 - dot v c1 then 0 else 1) vecs"

text \<open>
  The update pass: the loop over \<open>zip(vecs, assign)\<close> with the state \<open>(s0, s1, n0, n1)\<close>.
\<close>

fun update_pass :: "(real list \<times> nat) list \<Rightarrow> real list \<Rightarrow> real list \<Rightarrow> nat \<Rightarrow> nat
    \<Rightarrow> real list \<times> real list \<times> nat \<times> nat" where
  "update_pass [] s0 s1 n0 n1 = (s0, s1, n0, n1)"
| "update_pass ((v, a) # rest) s0 s1 n0 n1 =
     (if a = 0 then update_pass rest (map (\<lambda>(x, y). x + y) (zip s0 v)) s1 (n0 + 1) n1
      else update_pass rest s0 (map (\<lambda>(x, y). x + y) (zip s1 v)) n0 (n1 + 1))"

text \<open>The \<open>for _ in range(max(1, iters))\<close> loop, \<open>k\<close> rounds left.\<close>

fun kmeans_rounds :: "nat \<Rightarrow> real list list \<Rightarrow> nat list \<Rightarrow> real list \<Rightarrow> real list
    \<Rightarrow> nat list \<times> real list \<times> real list" where
  "kmeans_rounds 0 vecs assign c0 c1 = (assign, c0, c1)"
| "kmeans_rounds (Suc k) vecs assign c0 c1 =
     (let assign' = assign_pass vecs c0 c1;
          zeros = replicate (length (hd vecs)) 0
      in case update_pass (zip vecs assign') zeros zeros 0 0 of
           (s0, s1, n0, n1) \<Rightarrow>
             kmeans_rounds k vecs assign'
               (if n0 \<noteq> 0 then map (\<lambda>x. x / real (max 1 n0)) s0 else c0)
               (if n1 \<noteq> 0 then map (\<lambda>x. x / real (max 1 n1)) s1 else c1))"

definition kmeans2 :: "real list list \<Rightarrow> int \<Rightarrow> nat list \<times> real list \<times> real list" where
  "kmeans2 vecs iters =
     (if vecs = [] then ([], [], [])
      else kmeans_rounds (nat (max 1 iters)) vecs (replicate (length vecs) 0) (hd vecs) (last vecs))"

text \<open>
  A cluster tree: a leaf \<open>{"size", "ids"}\<close> or an internal node \<open>{"size", "left", "right"}\<close>.
\<close>

datatype cluster = Leaf nat "int list" | Node nat cluster cluster

text \<open>
  The partition loop of \<open>_bisect_recursive\<close> over \<open>enumerate(assign)\<close>: the members sent
  left (assignment 0) and right.
\<close>

definition left_ids :: "int list \<Rightarrow> nat list \<Rightarrow> int list" where
  "left_ids idxs assign = map fst (filter (\<lambda>(i, a). a = 0) (zip idxs assign))"

definition right_ids :: "int list \<Rightarrow> nat list \<Rightarrow> int list" where
  "right_ids idxs assign = map fst (filter (\<lambda>(i, a). a \<noteq> 0) (zip idxs assign))"

function bisect_recursive :: "real list list \<Rightarrow> int list \<Rightarrow> int \<Rightarrow> int \<Rightarrow> py_error + cluster" where
  "bisect_recursive vecs idxs depth min_size =
     (if depth \<le> 0 \<or> int (length idxs) \<le> max 2 min_size then Inr (Leaf (length idxs) idxs)
      else
        (case map_raise (py_index vecs) idxs of
           Inl e \<Rightarrow> Inl e
         | Inr sub \<Rightarrow>
             (if left_ids idxs (fst (kmeans2 sub 15)) = [] \<or>
                 right_ids idxs (fst (kmeans2 sub 15)) = []
              then Inr (Leaf (length idxs) idxs)
              else
                (case bisect_recursive vecs (left_ids idxs (fst (kmeans2 sub 15)))
                        (depth - 1) min_size of
                   Inl e \<Rightarrow> Inl e
                 | Inr l \<Rightarrow>
                     (case bisect_recursive vecs (right_ids idxs (fst (kmeans2 sub 15)))
                             (depth - 1) min_size of
                        Inl e \<Rightarrow> Inl e
                      | Inr r \<Rightarrow> Inr (Node (length idxs) l r))))))"
  by pat_completeness auto
termination
  by (relation "measure (\<lambda>(vecs, idxs, depth, min_size). nat depth)") auto

text \<open>Size, height and the shape invariant of a cluster tree.\<close>

fun csize :: "cluster \<Rightarrow> nat" where
  "csize (Leaf n ids) = n"
| "csize (Node n l r) = n"

fun cheight :: "cluster \<Rightarrow> nat" where
  "cheight (Leaf n ids) = 0"
| "cheight (Node n l r) = Suc (max (cheight l) (cheight r))"

fun both_children_nonempty :: "cluster \<Rightarrow> bool" where
  "both_children_nonempty (Leaf n ids) = (n = length ids)"
| "both_children_nonempty (Node n l r) =
     (0 < csize l \<and> 0 < csize r \<and> n = csize l + csize r \<and>
      both_children_nonempty l \<and> both_children_nonempty r)"

declare bisect_recursive.simps [simp del]

section \<open>parser.py: reading the store\<close>

text \<open>
  The value \<open>json.loads\<close> returns: \<open>JNull\<close> is Python's \<open>None\<close>, \<open>JNonFinite\<close> stands for
  the floats \<open>NaN\<close>, \<open>Infinity\<close> and \<open>-Infinity\<close>, a dict keeps its keys in order.
\<close>

datatype json =
    JNull
  | JBool bool
  | JInt int
  | JFloat real
  | JNonFinite
  | JStr string
  | JList "json list"
  | JDict "(string \<times> json) list"

text \<open>Truth value testing (\<open>if x\<close>, \<open>not x\<close>, \<open>x or y\<close>).\<close>

fun py_truthy :: "json \<Rightarrow> bool" where
  "py_truthy JNull = False"
| "py_truthy (JBool b) = b"
| "py_truthy (JInt i) = (i \<noteq> 0)"
| "py_truthy (JFloat x) = (x \<noteq> 0)"
| "py_truthy JNonFinite = True"
| "py_truthy (JStr s) = (s \<noteq> [])"
| "py_truthy (JList xs) = (xs \<noteq> [])"
| "py_truthy (JDict kvs) = (kvs \<noteq> [])"

definition py_or :: "json \<Rightarrow> json \<Rightarrow> json" where
  "py_or x y = (if py_truthy x then x else y)"

text \<open>\<open>d.get(k)\<close> on a dict.\<close>

definition dict_get :: "(string \<times> json) list \<Rightarrow> string \<Rightarrow> json" where
  "dict_get kvs k = (case map_of kvs k of None \<Rightarrow> JNull | Some v \<Rightarrow> v)"

text \<open>
  \<open>x.get(k)\<close> on any value: only a dict has the method, every other value raises
  \<open>AttributeError\<close>.
\<close>

fun py_get :: "json \<Rightarrow> string \<Rightarrow> py_error + json" where
  "py_get (JDict kvs) k = Inr (dict_get kvs k)"
| "py_get v k = Inl AttributeError"

text \<open>
  A stored value, as \<open>json.loads(to_text(value))\<close> sees it: text that parses to a document,
  or text on which \<open>json.loads\<close> raises.  The store is \<open>dbmod.kv_value\<close>: the value under
  a key, if any.
\<close>

datatype blob = Document json | Malformed

type_synonym store = "string \<Rightarrow> blob option"

fun parse_json :: "blob \<Rightarrow> json" where
  "parse_json (Document j) = j"
| "parse_json Malformed = JNull"

definition load_composer :: "store \<Rightarrow> string \<Rightarrow> json" where
  "load_composer conn cid =
     (case conn (''composerData:'' @ cid) of None \<Rightarrow> JNull | Some val \<Rightarrow> parse_json val)"

text \<open>
  The f-string of \<open>load_bubble\<close> formats the bubble id: a string is inserted as it is,
  \<open>str_of\<close> is \<open>str()\<close> on any other value (a parameter of the model).
\<close>

fun format_id :: "(json \<Rightarrow> string) \<Rightarrow> json \<Rightarrow> string" where
  "format_id str_of (JStr s) = s"
| "format_id str_of v = str_of v"

definition load_bubble :: "(json \<Rightarrow> string) \<Rightarrow> store \<Rightarrow> string \<Rightarrow> json \<Rightarrow> json" where
  "load_bubble str_of conn cid bubble_id =
     (case conn (''bubbleId:'' @ cid @ '':'' @ format_id str_of bubble_id) of
        None \<Rightarrow> JNull
      | Some val \<Rightarrow> parse_json val)"

text \<open>\<open>bubble_type == 1\<close>: true of the integer 1, the float 1.0 and \<open>True\<close>.\<close>

fun equals_one :: "json \<Rightarrow> bool" where
  "equals_one (JInt i) = (i = 1)"
| "equals_one (JFloat x) = (x = 1)"
| "equals_one (JBool b) = b"
| "equals_one v = False"

definition bubble_role :: "json \<Rightarrow> string" where
  "bubble_role bubble_type = (if equals_one bubble_type then ''user'' else ''assistant'')"

text \<open>
  The message dict appended by \<open>reconstruct_conversation\<close>; its \<open>text\<close> is whatever
  value the blob holds.
\<close>

record raw_message =
  rm_composer_id :: string
  rm_bubble_id :: json
  rm_server_bubble_id :: json
  rm_role :: string
  rm_text :: json

text \<open>
  One round of the loop of \<open>reconstruct_conversation\<close> over \<open>iter_bubble_headers\<close>, for
  the header \<open>h\<close>: the messages it appends (none or one), or the exception.
\<close>

definition reconstruct_header ::
    "(json \<Rightarrow> string) \<Rightarrow> store \<Rightarrow> string \<Rightarrow> json \<Rightarrow> py_error + raw_message list" where
  "reconstruct_header str_of conn cid h =
     (case py_get h ''bubbleId'' of
        Inl e \<Rightarrow> Inl e
      | Inr bubble_id \<Rightarrow>
         (case py_get h ''type'' of
            Inl e \<Rightarrow> Inl e
          | Inr bubble_type \<Rightarrow>
             (case py_get h ''serverBubbleId'' of
                Inl e \<Rightarrow> Inl e
              | Inr server_bubble_id \<Rightarrow>
                 (if \<not> py_truthy bubble_id then Inr []
                  else
                    (let bubble = load_bubble str_of conn cid bubble_id
                     in if \<not> py_truthy bubble then Inr []
                        else
                          (let txt = (case bubble of JDict kvs \<Rightarrow> dict_get kvs ''text''
                                                   | _ \<Rightarrow> JNull)
                           in case (if \<not> py_truthy txt
                                    then (case py_get bubble ''content'' of
                                            Inl e \<Rightarrow> Inl e
                                          | Inr c \<Rightarrow> Inr (py_or c (JStr [])))
                                    else Inr txt) of
                                Inl e \<Rightarrow> Inl e
                              | Inr txt' \<Rightarrow>
                                 Inr [\<lparr>rm_composer_id = cid,
                                       rm_bubble_id = bubble_id,
                                       rm_server_bubble_id = server_bubble_id,
                                       rm_role = bubble_role bubble_type,
                                       rm_text = py_or txt' (JStr [])\<rparr>]))))))"

fun reconstruct_loop ::
    "(json \<Rightarrow> string) \<Rightarrow> store \<Rightarrow> string \<Rightarrow> json list \<Rightarrow> py_error + raw_message list" where
  "reconstruct_loop str_of conn cid [] = Inr []"
| "reconstruct_loop str_of conn cid (h # hs) =
     (case reconstruct_header str_of conn cid h of
        Inl e \<Rightarrow> Inl e
      | Inr ms \<Rightarrow>
         (case reconstruct_loop str_of conn cid hs of
            Inl e \<Rightarrow> Inl e
          | Inr rest \<Rightarrow> Inr (ms @ rest)))"

text \<open>
  \<open>for h in headers\<close>: a list gives its elements, a string its characters and a dict its
  keys (each a string), any other value is not iterable.
\<close>

fun py_iter :: "json \<Rightarrow> py_error + json list" where
  "py_iter (JList xs) = Inr xs"
| "py_iter (JStr s) = Inr (map (\<lambda>c. JStr [c]) s)"
| "py_iter (JDict kvs) = Inr (map (\<lambda>(k, v). JStr k) kvs)"
| "py_iter v = Inl TypeError"

definition reconstruct_conversation ::
    "(json \<Rightarrow> string) \<Rightarrow> store \<Rightarrow> string \<Rightarrow> py_error + raw_message list" where
  "reconstruct_conversation str_of conn cid =
     (let composer = load_composer conn cid
      in if \<not> py_truthy composer then Inr []
         else
           (case py_get composer ''fullConversationHeadersOnly'' of
              Inl e \<Rightarrow> Inl e
            | Inr hv \<Rightarrow>
               (case py_iter (py_or hv (JList [])) of
                  Inl e \<Rightarrow> Inl e
                | Inr headers \<Rightarrow> reconstruct_loop str_of conn cid headers)))"

section \<open>parser.py: the repository hint\<close>

text \<open>
  \<open>_walk_dict\<close>: the key/value pairs of a document in the order the generator yields
  them, each pair before the pairs below its value.
\<close>

fun walk_dict :: "json \<Rightarrow> (string \<times> json) list" where
  "walk_dict (JDict kvs) = concat (map (\<lambda>(k, v). (k, v) # walk_dict v) kvs)"
| "walk_dict (JList xs) = concat (map walk_dict xs)"
| "walk_dict v = []"

definition key_pat :: "string list" where
  "key_pat = [''repo'', ''repository'', ''git'', ''workspace'', ''root'', ''cwd'', ''path'', ''url'']"

text \<open>The candidates: string values, not empty, under a key that contains a pattern.\<close>

definition is_candidate :: "string \<times> json \<Rightarrow> bool" where
  "is_candidate kv =
     (case kv of (k, v) \<Rightarrow>
        list_ex (\<lambda>p. py_contains p (py_lower k)) key_pat \<and>
        (case v of JStr s \<Rightarrow> s \<noteq> [] | _ \<Rightarrow> False))"

definition candidates_of :: "json \<Rightarrow> string list" where
  "candidates_of composer_obj =
     concat (map (\<lambda>(k, v). case v of JStr s \<Rightarrow> [s] | _ \<Rightarrow> [])
       (filter is_candidate (walk_dict composer_obj)))"

text \<open>\<open>s.endswith(suffix)\<close>, \<open>s.rstrip("/")\<close> and \<open>s.split(sep)\<close> for a one-character \<open>sep\<close>.\<close>

definition py_endswith :: "string \<Rightarrow> string \<Rightarrow> bool" where
  "py_endswith s suffix =
     (length suffix \<le> length s \<and> drop (length s - length suffix) s = suffix)"

definition rstrip_slash :: "string \<Rightarrow> string" where
  "rstrip_slash s = rev (dropWhile (\<lambda>c. c = CHR ''/'') (rev s))"

fun split_on :: "char \<Rightarrow> string \<Rightarrow> string \<Rightarrow> string list" where
  "split_on sep cur [] = [cur]"
| "split_on sep cur (c # cs) =
     (if c = sep then cur # split_on sep [] cs else split_on sep (cur @ [c]) cs)"

definition py_split_sep :: "char \<Rightarrow> string \<Rightarrow> string list" where
  "py_split_sep sep s = split_on sep [] s"

text \<open>The backslash character.\<close>

definition backslash :: char where
  "backslash = char_of (92 :: nat)"

text \<open>The sort key \<open>score(s)\<close> of \<open>extract_repo_hint\<close>: a pair of integers.\<close>

definition is_git :: "string \<Rightarrow> bool" where
  "is_git s = (py_contains ''github.com'' (py_lower s) \<or> py_endswith (py_lower s) ''.git'')"

definition is_path :: "string \<Rightarrow> bool" where
  "is_path s = (CHR ''/'' \<in> set s \<or> backslash \<in> set s)"

definition candidate_score :: "string \<Rightarrow> int \<times> int" where
  "candidate_score s = (if is_git s then 2 else (if is_path s then 1 else 0), - int (length s))"

text \<open>Python compares tuples lexicographically.\<close>

definition tuple_less :: "int \<times> int \<Rightarrow> int \<times> int \<Rightarrow> bool" where
  "tuple_less a b = (fst a < fst b \<or> (fst a = fst b \<and> snd a < snd b))"

text \<open>
  \<open>list.sort(key=..., reverse=True)\<close>: descending by key, and stable (elements with equal
  keys keep their order).
\<close>

fun insert_desc :: "('a \<Rightarrow> int \<times> int) \<Rightarrow> 'a \<Rightarrow> 'a list \<Rightarrow> 'a list" where
  "insert_desc key x [] = [x]"
| "insert_desc key x (y # ys) =
     (if tuple_less (key x) (key y) then y # insert_desc key x ys else x # y # ys)"

definition sort_reverse :: "('a \<Rightarrow> int \<times> int) \<Rightarrow> 'a list \<Rightarrow> 'a list" where
  "sort_reverse key xs = foldr (insert_desc key) xs []"

text \<open>
  The loop over the sorted candidates: the first candidate that looks like a remote URL
  or like a path decides; \<open>None\<close> when the loop ends without a \<open>return\<close>.
\<close>

definition hint_of_candidate :: "string \<Rightarrow> string option" where
  "hint_of_candidate s =
     (let val = py_strip s; low = py_lower val
      in if py_contains ''github.com'' low then
           (let name = last (py_split_sep (CHR ''/'') (rstrip_slash val))
            in Some (if py_endswith name ''.git'' then take (length name - 4) name else name))
         else if CHR ''/'' \<in> set val \<or> backslash \<in> set val then
           (let sep = (if CHR ''/'' \<in> set val then CHR ''/'' else backslash);
                parts = filter (\<lambda>p. p \<noteq> []) (py_split_sep sep val)
            in if parts = [] then None
               else if 2 \<le> length parts
                 then Some (py_join ''/'' (drop (length parts - 2) parts))
               else Some (last parts))
         else None)"

fun first_hint :: "string list \<Rightarrow> string option" where
  "first_hint [] = None"
| "first_hint (s # ss) = (case hint_of_candidate s of Some h \<Rightarrow> Some h | None \<Rightarrow> first_hint ss)"

definition extract_repo_hint :: "json \<Rightarrow> string option" where
  "extract_repo_hint composer_obj =
     (if \<not> py_truthy composer_obj then None
      else
        (let candidates = sort_reverse candidate_score (candidates_of composer_obj)
         in case first_hint candidates of
              Some h \<Rightarrow> Some h
            | None \<Rightarrow> (case candidates of [] \<Rightarrow> None | c # cs \<Rightarrow> Some c)))"

section \<open>toolchat.py: the hybrid merge\<close>

text \<open>\<open>str(n)\<close> for an integer, as the f-strings of the identifiers format it.\<close>

definition digit_char :: "nat \<Rightarrow> char" where
  "digit_char d = char_of (48 + d)"

function show_nat :: "nat \<Rightarrow> string" where
  "show_nat n = (if n < 10 then [digit_char n] else show_nat (n div 10) @ [digit_char (n mod 10)])"
  by pat_completeness auto
termination
  by (relation "measure id") auto

declare show_nat.simps [simp del]

definition show_int :: "int \<Rightarrow> string" where
  "show_int i = (if i < 0 then CHR ''-'' # show_nat (nat (- i)) else show_nat (nat i))"

text \<open>
  A row of \<open>search_index\<close> (sparse), a row of \<open>vec_search\<close> (vector) and an item of the
  merged result.  In a merged item the keys \<open>sparse_score\<close> and \<open>vec_distance\<close> may be
  absent (\<open>None\<close>).
\<close>

record sparse_row =
  sp_composer_id :: string
  sp_turn_index :: int
  sp_user_head :: string
  sp_assistant_head :: string
  sp_score :: int

record vec_row =
  vr_id :: "string option"
  vr_composer_id :: string
  vr_turn_index :: int
  vr_user_head :: string
  vr_assistant_head :: string
  vr_distance :: real

record merged_item =
  mi_id :: string
  mi_composer_id :: string
  mi_turn_index :: int
  mi_user_head :: string
  mi_assistant_head :: string
  sparse_score :: "int option"
  vec_distance :: "real option"

text \<open>
  A Python dict in insertion order: assigning to a key that is present keeps its place, a
  new key goes to the end.  A table with a primary key behaves the same under
  \<open>INSERT ... ON CONFLICT DO UPDATE\<close>.
\<close>

definition dict_set :: "('k \<times> 'v) list \<Rightarrow> 'k \<Rightarrow> 'v \<Rightarrow> ('k \<times> 'v) list" where
  "dict_set d k v =
     (if k \<in> set (map fst d) then map (\<lambda>(k', v'). if k' = k then (k, v) else (k', v')) d
      else d @ [(k, v)])"

text \<open>The identifier \<open>idv\<close> of a sparse row and of a vector row.\<close>

definition sparse_id :: "sparse_row \<Rightarrow> string" where
  "sparse_id r = sp_composer_id r @ '':'' @ show_int (sp_turn_index r)"

definition vec_id :: "vec_row \<Rightarrow> string" where
  "vec_id r =
     (case vr_id r of
        Some i \<Rightarrow> (if i \<noteq> [] then i else vr_composer_id r @ '':'' @ show_int (vr_turn_index r))
      | None \<Rightarrow> vr_composer_id r @ '':'' @ show_int (vr_turn_index r))"

definition sparse_item :: "sparse_row \<Rightarrow> merged_item" where
  "sparse_item r =
     \<lparr>mi_id = sparse_id r, mi_composer_id = sp_composer_id r, mi_turn_index = sp_turn_index r,
      mi_user_head = sp_user_head r, mi_assistant_head = sp_assistant_head r,
      sparse_score = Some (sp_score r), vec_distance = None\<rparr>"

definition vec_item :: "vec_row \<Rightarrow> merged_item" where
  "vec_item r =
     \<lparr>mi_id = vec_id r, mi_composer_id = vr_composer_id r, mi_turn_index = vr_turn_index r,
      mi_user_head = vr_user_head r, mi_assistant_head = vr_assistant_head r,
      sparse_score = None, vec_distance = None\<rparr>"

text \<open>The two loops of \<open>_tool_hybrid_search\<close> over \<open>sp\<close> and over \<open>vec\<close>.\<close>

fun merge_sparse :: "(string \<times> merged_item) list \<Rightarrow> sparse_row list \<Rightarrow> (string \<times> merged_item) list" where
  "merge_sparse merged [] = merged"
| "merge_sparse merged (r # rs) = merge_sparse (dict_set merged (sparse_id r) (sparse_item r)) rs"

fun merge_vec :: "(string \<times> merged_item) list \<Rightarrow> vec_row list \<Rightarrow> (string \<times> merged_item) list" where
  "merge_vec merged [] = merged"
| "merge_vec merged (r # rs) =
     merge_vec
       (dict_set merged (vec_id r)
          ((case map_of merged (vec_id r) of Some m \<Rightarrow> m | None \<Rightarrow> vec_item r)
             \<lparr>vec_distance := Some (vr_distance r)\<rparr>))
       rs"

definition hybrid_merge :: "sparse_row list \<Rightarrow> vec_row list \<Rightarrow> merged_item list" where
  "hybrid_merge sp vec = map snd (merge_vec (merge_sparse [] sp) vec)"

section \<open>llm_utils.py: cached embeddings\<close>

text \<open>
  \<open>H\<close> is \<open>hashlib.sha256(s.encode("utf-8")).hexdigest()\<close>, a parameter of the model.
  \<open>_hash_key\<close> feeds the parts to one hash object, which hashes their concatenation.
\<close>

definition hash_key :: "(string \<Rightarrow> string) \<Rightarrow> string list \<Rightarrow> string" where
  "hash_key H parts = H (concat parts)"

definition embedding_cache_key ::
    "(string \<Rightarrow> string) \<Rightarrow> string \<Rightarrow> string \<Rightarrow> string \<Rightarrow> string \<Rightarrow> string" where
  "embedding_cache_key H model scope ident txt =
     hash_key H [''embed'', model, scope, ident, H txt]"

text \<open>
  A cache entry as the first pass reads it: \<open>json.loads(cached)\<close> is a list (a vector), or
  the text does not parse or parses to something else.  \<open>llm_cache\<close> is a map from keys to
  entries.
\<close>

datatype 'a cached = CachedList "'a list" | CachedOther

record 'a embed_state =
  results :: "'a list list"
  cache :: "string \<Rightarrow> 'a cached option"
  calls :: "string list list"

text \<open>\<open>xs[i:j]\<close>: negative bounds count from the end, bounds are clipped to the list.\<close>

definition slice_bound :: "nat \<Rightarrow> int \<Rightarrow> nat" where
  "slice_bound n i = (if i < 0 then nat (max (i + int n) 0) else min (nat i) n)"

definition py_slice :: "'a list \<Rightarrow> int \<Rightarrow> int \<Rightarrow> 'a list" where
  "py_slice xs i j =
     take (slice_bound (length xs) j - slice_bound (length xs) i)
       (drop (slice_bound (length xs) i) xs)"

text \<open>
  The first pass over \<open>enumerate(texts)\<close>: a cached vector is appended to \<open>results\<close>, a
  miss appends \<open>[]\<close> and is noted in \<open>missing\<close>.
\<close>

fun first_pass ::
    "(string \<Rightarrow> string) \<Rightarrow> (string \<Rightarrow> 'a cached option) \<Rightarrow> string \<Rightarrow> string \<Rightarrow> string
     \<Rightarrow> (nat \<times> string) list \<Rightarrow> 'a list list \<Rightarrow> (nat \<times> string) list
     \<Rightarrow> 'a list list \<times> (nat \<times> string) list" where
  "first_pass H c model scope id_prefix [] res missing = (res, missing)"
| "first_pass H c model scope id_prefix ((i, t) # rest) res missing =
     (case c (embedding_cache_key H model scope (id_prefix @ show_nat i) t) of
        Some (CachedList vec) \<Rightarrow> first_pass H c model scope id_prefix rest (res @ [vec]) missing
      | _ \<Rightarrow> first_pass H c model scope id_prefix rest (res @ [[]]) (missing @ [(i, t)]))"

text \<open>
  The loop over \<open>zip(chunk, vecs)\<close>: the vector is spliced into \<open>results\<close> at its index
  and stored in the cache.
\<close>

fun store_chunk ::
    "(string \<Rightarrow> string) \<Rightarrow> string \<Rightarrow> string \<Rightarrow> string
     \<Rightarrow> ((nat \<times> string) \<times> 'a list) list \<Rightarrow> 'a embed_state \<Rightarrow> 'a embed_state" where
  "store_chunk H model scope id_prefix [] st = st"
| "store_chunk H model scope id_prefix (((idx, t), vec) # rest) st =
     store_chunk H model scope id_prefix rest
       (st\<lparr>results := (results st)[idx := vec],
           cache := (cache st)
             (embedding_cache_key H model scope (id_prefix @ show_nat idx) t \<mapsto> CachedList vec)\<rparr>)"

text \<open>
  The \<open>while start_index < len(missing)\<close> loop.  \<open>api model inputs\<close> is
  \<open>client.embeddings.create\<close>, returning the vectors of \<open>resp.data\<close> or raising.  The loop
  does not end when the batch size is not positive; then the value is \<open>None\<close>.
\<close>

partial_function (option) embed_loop ::
    "(string \<Rightarrow> string list \<Rightarrow> py_error + 'a list list) \<Rightarrow> (string \<Rightarrow> string) \<Rightarrow> string \<Rightarrow> string
     \<Rightarrow> string \<Rightarrow> int \<Rightarrow> (nat \<times> string) list \<Rightarrow> int \<Rightarrow> 'a embed_state
     \<Rightarrow> (py_error option \<times> 'a embed_state) option" where
  "embed_loop api H model scope id_prefix max_batch_size missing start_index st =
     (if start_index < int (length missing) then
        (let chunk = py_slice missing start_index (start_index + max_batch_size);
             inputs = map snd chunk
         in case api model inputs of
              Inl e \<Rightarrow> Some (Some e, st\<lparr>calls := calls st @ [inputs]\<rparr>)
            | Inr vecs \<Rightarrow>
                embed_loop api H model scope id_prefix max_batch_size missing
                  (start_index + max_batch_size)
                  (store_chunk H model scope id_prefix (zip chunk vecs)
                     (st\<lparr>calls := calls st @ [inputs]\<rparr>)))
      else Some (None, st))"

text \<open>
  \<open>embed_texts\<close>: the exception that left it, if any, and the state with the list
  \<open>results\<close> it returns, the cache and the external calls issued; \<open>None\<close> if it runs
  forever.  \<open>max_batch_size\<close> is the value read from \<open>EMBED_BATCH\<close>.
\<close>

definition embed_texts ::
    "(string \<Rightarrow> string list \<Rightarrow> py_error + 'a list list) \<Rightarrow> (string \<Rightarrow> string) \<Rightarrow> int
     \<Rightarrow> (string \<Rightarrow> 'a cached option) \<Rightarrow> string list \<Rightarrow> string \<Rightarrow> string \<Rightarrow> string
     \<Rightarrow> (py_error option \<times> 'a embed_state) option" where
  "embed_texts api H max_batch_size c texts model scope id_prefix =
     (case first_pass H c model scope id_prefix (zip [0..<length texts] texts) [] [] of
        (res, missing) \<Rightarrow>
          (if missing \<noteq> [] then
             embed_loop api H model scope id_prefix max_batch_size missing 0
               \<lparr>results = res, cache = c, calls = []\<rparr>
           else Some (None, \<lparr>results = res, cache = c, calls = []\<rparr>)))"

text \<open>
  For the statements about \<open>embed_texts\<close>: the vector a cache holds under a key, if it
  holds one, and a list cut into consecutive batches of \<open>n\<close> elements.
\<close>

definition cached_vec :: "(string \<Rightarrow> 'a cached option) \<Rightarrow> string \<Rightarrow> 'a list option" where
  "cached_vec c k = (case c k of Some (CachedList vec) \<Rightarrow> Some vec | _ \<Rightarrow> None)"

function chunks_of :: "nat \<Rightarrow> 'b list \<Rightarrow> 'b list list" where
  "chunks_of n xs = (if n = 0 \<or> xs = [] then [] else take n xs # chunks_of n (drop n xs))"
  by pat_completeness auto
termination
  by (relation "measure (\<lambda>(n, xs). length xs)") auto

declare chunks_of.simps [simp del]

text \<open>The cache key of the text at position \<open>i\<close> of \<open>texts\<close>.\<close>

definition text_key ::
    "(string \<Rightarrow> string) \<Rightarrow> string \<Rightarrow> string \<Rightarrow> string \<Rightarrow> string list \<Rightarrow> nat \<Rightarrow> string" where
  "text_key H model scope id_prefix texts i =
     embedding_cache_key H model scope (id_prefix @ show_nat i) (texts ! i)"

text \<open>
  Of a run of \<open>embed_texts\<close> that returns: the external calls it issued, and the cache it
  leaves behind (the empty cache stands in for a run that does not end).
\<close>

definition calls_issued :: "(py_error option \<times> 'a embed_state) option \<Rightarrow> string list list option" where
  "calls_issued run = map_option (\<lambda>(e, st). calls st) run"

definition cache_after :: "(py_error option \<times> 'a embed_state) option \<Rightarrow> string \<Rightarrow> 'a cached option" where
  "cache_after run = (case run of Some (e, st) \<Rightarrow> cache st | None \<Rightarrow> Map.empty)"

text \<open>
  An embedding service as the test double \<open>DummyEmb\<close> of the test suite: every input gets
  the same two-component vector.
\<close>

definition dummy_embeddings :: "string \<Rightarrow> string list \<Rightarrow> py_error + real list list" where
  "dummy_embeddings model inputs = Inr (map (\<lambda>t. [1 / 10, 0]) inputs)"

section \<open>rag.py and index.py: building the index\<close>


































section \<open>Properties of coalescing and turn pairs\<close>

lemma coalesce_loop_acc:
  "coalesce_loop ms acc p = (acc @ fst (coalesce_loop ms [] p), snd (coalesce_loop ms [] p))"
proof (induction ms arbitrary: acc p)
  case Nil
  then show ?case by simp
next
  case (Cons m ms)
  show ?case
  proof (cases "role m = ''assistant''")
    case True
    note asst = this
    show ?thesis
    proof (cases "is_nonempty (msg_text m)")
      case False
      then show ?thesis using asst Cons.IH [of acc p] by simp
    next
      case True
      show ?thesis
      proof (cases p)
        case None
        then show ?thesis using asst True Cons.IH [of acc "Some m"] by simp
      next
        case (Some q)
        then show ?thesis
          using asst True
            Cons.IH [of acc "Some (q\<lparr>msg_text := py_strip (msg_text q @ ''\<newline>\<newline>'' @ msg_text m)\<rparr>)"]
          by simp
      qed
    qed
  next
    case False
    show ?thesis
    proof (cases p)
      case None
      show ?thesis
        using False None Cons.IH [of "acc @ [m]" None] Cons.IH [of "[m]" None] by simp
    next
      case (Some q)
      show ?thesis
        using False Some Cons.IH [of "acc @ [q, m]" None] Cons.IH [of "[q, m]" None] by simp
    qed
  qed
qed

lemma coalesce_loop_users:
  "\<forall>q. p = Some q \<longrightarrow> role q = ''assistant'' \<Longrightarrow>
   filter (\<lambda>m. role m = ''user'') (fst (coalesce_loop ms acc p)) =
     filter (\<lambda>m. role m = ''user'') acc @ filter (\<lambda>m. role m = ''user'') ms
   \<and> (\<forall>q. snd (coalesce_loop ms acc p) = Some q \<longrightarrow> role q = ''assistant'')"
proof (induction ms arbitrary: acc p)
  case Nil
  then show ?case by simp
next
  case (Cons m ms)
  show ?case
  proof (cases "role m = ''assistant''")
    case True
    note asst = this
    show ?thesis
    proof (cases "is_nonempty (msg_text m)")
      case False
      then show ?thesis using asst Cons.IH [OF Cons.prems, of acc] by simp
    next
      case True
      show ?thesis
      proof (cases p)
        case None
        have "\<forall>q. Some m = Some q \<longrightarrow> role q = ''assistant''" using asst by simp
        from Cons.IH [OF this, of acc] show ?thesis using asst True None by simp
      next
        case (Some q)
        let ?q = "q\<lparr>msg_text := py_strip (msg_text q @ ''\<newline>\<newline>'' @ msg_text m)\<rparr>"
        have "\<forall>r. Some ?q = Some r \<longrightarrow> role r = ''assistant''"
          using Cons.prems Some by simp
        from Cons.IH [OF this, of acc] show ?thesis using asst True Some by simp
      qed
    qed
  next
    case False
    have n: "\<forall>q. (None :: 'a message_scheme option) = Some q \<longrightarrow> role q = ''assistant''" by simp
    show ?thesis
    proof (cases p)
      case None
      from Cons.IH [OF n, of "acc @ [m]"] show ?thesis using False None by simp
    next
      case (Some q)
      from Cons.IH [OF n, of "acc @ [q, m]"] show ?thesis
        using False Some Cons.prems by simp
    qed
  qed
qed

lemma coalesce_users:
  "filter (\<lambda>m. role m = ''user'') (coalesce_assistant_runs ms) = filter (\<lambda>m. role m = ''user'') ms"
  using coalesce_loop_users [of None ms "[]"]
  by (auto simp: coalesce_assistant_runs_def split: prod.splits option.splits)

lemma coalesce_user_head:
  "role u = ''user'' \<Longrightarrow> coalesce_assistant_runs (u # ms) = u # coalesce_assistant_runs ms"
  using coalesce_loop_acc [of ms "[u]" None]
  by (auto simp: coalesce_assistant_runs_def split: prod.splits option.splits)

lemma qa_loop_started:
  "current_user s \<noteq> None \<Longrightarrow>
   map turn_index (qa_finalize ms0 (qa_loop ms s)) =
     map turn_index (pairs s) @
       [next_turn s ..< next_turn s + length (filter (\<lambda>m. role m = ''user'') ms) + 1]"
proof (induction ms arbitrary: s)
  case Nil
  then show ?case by (simp add: qa_finalize_def)
next
  case (Cons m ms)
  have cu: "current_user (qa_step m s) \<noteq> None"
    using Cons.prems by (simp add: qa_step_def Let_def)
  show ?case
  proof (cases "role m = ''user''")
    case True
    then show ?thesis
      using Cons.IH [OF cu] Cons.prems
      by (simp add: qa_step_def Let_def upt_conv_Cons del: upt_Suc)
  next
    case False
    then show ?thesis
      using Cons.IH [OF cu] Cons.prems
      by (simp add: qa_step_def Let_def del: upt_Suc)
  qed
qed

lemma alternating_users:
  "alternating ms \<Longrightarrow> length (filter (\<lambda>m. role m = ''user'') ms) = (length ms + 1) div 2"
  by (induction ms rule: alternating.induct) auto

lemma build_qa_pairs_user_first:
  assumes "role u = ''user''"
  shows "map turn_index (build_qa_pairs (u # ms)) =
    [0 ..< length (filter (\<lambda>m. role m = ''user'') (u # ms))]"
proof -
  let ?s = "\<lparr>pairs = [], current_user = Some u, current_assistant_text = [], next_turn = 0\<rparr>"
  have "qa_step u \<lparr>pairs = [], current_user = None, current_assistant_text = [], next_turn = 0\<rparr> = ?s"
    using assms by (simp add: qa_step_def)
  then have "build_qa_pairs (u # ms) = qa_finalize (u # ms) (qa_loop (coalesce_assistant_runs ms) ?s)"
    using assms by (simp add: build_qa_pairs_def coalesce_user_head)
  then show ?thesis
    using qa_loop_started [of ?s "u # ms" "coalesce_assistant_runs ms"] assms
    by (simp add: coalesce_users)
qed

text \<open>
  C1: for \<open>n\<close> alternating user/assistant messages (user first), \<open>build_qa_pairs\<close>
  yields exactly \<open>\<lceil>n/2\<rceil>\<close> pairs and their \<open>turn_index\<close> fields are \<open>0, 1, 2, ...\<close> in
  emission order.
\<close>

theorem build_qa_pairs_alternating:
  assumes "alternating ms"
  shows "length (build_qa_pairs ms) = (length ms + 1) div 2 \<and>
         map turn_index (build_qa_pairs ms) = [0 ..< (length ms + 1) div 2]"
proof (cases ms)
  case Nil
  then show ?thesis
    by (simp add: build_qa_pairs_def coalesce_assistant_runs_def qa_finalize_def)
next
  case (Cons u rest)
  then have u: "role u = ''user''" using assms by (cases rest) auto
  have m: "map turn_index (build_qa_pairs ms) = [0 ..< (length ms + 1) div 2]"
    using build_qa_pairs_user_first [OF u, of rest] alternating_users [OF assms] Cons by simp
  have "length (build_qa_pairs ms) = length (map turn_index (build_qa_pairs ms))" by simp
  also have "\<dots> = (length ms + 1) div 2" by (simp only: m length_upt)
  finally show ?thesis using m by simp
qed

theorem build_qa_pairs_alternating_witness:
  "alternating
     [\<lparr>composer_id = ''c1'', role = ''user'', msg_text = ''Hello''\<rparr>,
      \<lparr>composer_id = ''c1'', role = ''assistant'', msg_text = ''Hi''\<rparr>,
      \<lparr>composer_id = ''c1'', role = ''user'', msg_text = ''Do X''\<rparr>] \<and>
   length (build_qa_pairs
     [\<lparr>composer_id = ''c1'', role = ''user'', msg_text = ''Hello''\<rparr>,
      \<lparr>composer_id = ''c1'', role = ''assistant'', msg_text = ''Hi''\<rparr>,
      \<lparr>composer_id = ''c1'', role = ''user'', msg_text = ''Do X''\<rparr>]) = 2 \<and>
   map turn_index (build_qa_pairs
     [\<lparr>composer_id = ''c1'', role = ''user'', msg_text = ''Hello''\<rparr>,
      \<lparr>composer_id = ''c1'', role = ''assistant'', msg_text = ''Hi''\<rparr>,
      \<lparr>composer_id = ''c1'', role = ''user'', msg_text = ''Do X''\<rparr>]) = [0, 1]"
proof -
  let ?ms = "[\<lparr>composer_id = ''c1'', role = ''user'', msg_text = ''Hello''\<rparr>,
      \<lparr>composer_id = ''c1'', role = ''assistant'', msg_text = ''Hi''\<rparr>,
      \<lparr>composer_id = ''c1'', role = ''user'', msg_text = ''Do X''\<rparr>]"
  have a: "alternating ?ms" by simp
  have e: "[0 ..< (length ?ms + 1) div 2] = [0, 1]" by (simp add: upt_rec)
  show ?thesis using a build_qa_pairs_alternating [OF a] e by simp
qed

lemma set_dropWhile_keep: "x \<in> set xs \<Longrightarrow> \<not> P x \<Longrightarrow> x \<in> set (dropWhile P xs)"
  by (induction xs) auto

lemma ex_keep_dropWhile: "(\<exists>x\<in>set (dropWhile P xs). \<not> P x) \<longleftrightarrow> (\<exists>x\<in>set xs. \<not> P x)"
  using set_dropWhile_keep [of _ xs P] set_dropWhileD [of _ P xs] by blast

lemma py_strip_Nil_iff: "py_strip s \<noteq> [] \<longleftrightarrow> (\<exists>c\<in>set s. \<not> py_isspace c)"
proof -
  have "py_strip s \<noteq> [] \<longleftrightarrow> (\<exists>c\<in>set (dropWhile py_isspace (rev s)). \<not> py_isspace c)"
    by (simp add: py_strip_def py_lstrip_def py_rstrip_def dropWhile_eq_Nil_conv)
  also have "\<dots> \<longleftrightarrow> (\<exists>c\<in>set (rev s). \<not> py_isspace c)" by (rule ex_keep_dropWhile)
  finally show ?thesis by simp
qed

lemma is_nonempty_iff: "is_nonempty s \<longleftrightarrow> (\<exists>c\<in>set s. \<not> py_isspace c)"
  unfolding is_nonempty_def py_strip_Nil_iff by auto

lemma py_strip_keeps: "c \<in> set s \<Longrightarrow> \<not> py_isspace c \<Longrightarrow> c \<in> set (py_strip s)"
  by (simp add: py_strip_def py_lstrip_def py_rstrip_def set_dropWhile_keep)

lemma is_nonempty_merge:
  "is_nonempty t \<Longrightarrow> is_nonempty (py_strip (p @ sep @ t))"
  unfolding is_nonempty_iff using py_strip_keeps [of _ "p @ sep @ t"] by fastforce

lemma py_strip_ends:
  assumes "s \<noteq> []" "\<not> py_isspace (hd s)" "\<not> py_isspace (last s)"
  shows "py_strip s = s"
proof -
  have "rev s \<noteq> []" "\<not> py_isspace (hd (rev s))" using assms by (simp_all add: hd_rev)
  then have "dropWhile py_isspace (rev s) = rev s" by (cases "rev s") auto
  then have r: "py_rstrip s = s" by (simp add: py_rstrip_def)
  have "dropWhile py_isspace s = s" using assms by (cases s) auto
  then show ?thesis using r by (simp add: py_strip_def py_lstrip_def)
qed

lemma py_strip_fixed_ends:
  assumes "py_strip s = s" "s \<noteq> []"
  shows "\<not> py_isspace (hd s) \<and> \<not> py_isspace (last s)"
proof -
  have l1: "length (py_rstrip s) \<le> length s"
    using length_dropWhile_le [of py_isspace "rev s"] by (simp add: py_rstrip_def)
  have l2: "length (py_strip s) \<le> length (py_rstrip s)"
    by (simp add: py_strip_def py_lstrip_def length_dropWhile_le)
  have eq: "py_rstrip s = s"
  proof -
    have "length (py_rstrip s) = length s" using l1 l2 assms(1) by simp
    moreover have "\<exists>zs. s = py_rstrip s @ zs"
    proof -
      have "s = py_rstrip s @ rev (takeWhile py_isspace (rev s))"
        unfolding py_rstrip_def by (metis rev_append rev_rev_ident takeWhile_dropWhile_id)
      then show ?thesis by blast
    qed
    ultimately show ?thesis by (metis append_eq_conv_conj append_self_conv length_0_conv length_append add_diff_cancel_left' diff_self_eq_0)
  qed
  have last: "\<not> py_isspace (last s)"
  proof
    assume "py_isspace (last s)"
    then have "py_isspace (hd (rev s))" using assms(2) by (simp add: hd_rev)
    then have "length (dropWhile py_isspace (rev s)) < length (rev s)"
      using assms(2) by (cases "rev s") (auto simp: less_Suc_eq_le length_dropWhile_le)
    then show False using eq by (simp add: py_rstrip_def) (metis length_rev less_irrefl)
  qed
  have hd: "\<not> py_isspace (hd s)"
  proof
    assume "py_isspace (hd s)"
    then have "length (dropWhile py_isspace s) < length s"
      using assms(2) by (cases s) (auto simp: less_Suc_eq_le length_dropWhile_le)
    then show False using assms(1) eq by (simp add: py_strip_def py_lstrip_def)
  qed
  show ?thesis using hd last by simp
qed

lemma py_strip_glue:
  assumes "py_strip x = x" "x \<noteq> []" "py_strip y = y" "y \<noteq> []"
  shows "py_strip (x @ sep @ y) = x @ sep @ y"
proof -
  have "\<not> py_isspace (hd (x @ sep @ y))" using py_strip_fixed_ends [OF assms(1,2)] assms(2) by simp
  moreover have "\<not> py_isspace (last (x @ sep @ y))" using py_strip_fixed_ends [OF assms(3,4)] assms(4) by simp
  ultimately show ?thesis using assms(2) by (intro py_strip_ends) simp_all
qed

lemma coalesce_loop_drop_empty:
  "role m = ''assistant'' \<Longrightarrow> \<not> is_nonempty (msg_text m) \<Longrightarrow>
   coalesce_loop (xs @ m # ys) acc p = coalesce_loop (xs @ ys) acc p"
proof (induction xs arbitrary: acc p)
  case Nil
  then show ?case by simp
next
  case (Cons x xs)
  show ?case
    by (cases p) (simp_all add: Cons.IH [OF Cons.prems])
qed

lemma coalesce_loop_nonempty:
  assumes "\<forall>x\<in>set acc. role x = ''assistant'' \<longrightarrow> is_nonempty (msg_text x)"
    and "\<forall>q. p = Some q \<longrightarrow> is_nonempty (msg_text q)"
  shows "(\<forall>x\<in>set (fst (coalesce_loop ms acc p)). role x = ''assistant'' \<longrightarrow> is_nonempty (msg_text x))
     \<and> (\<forall>q. snd (coalesce_loop ms acc p) = Some q \<longrightarrow> is_nonempty (msg_text q))"
  using assms
proof (induction ms arbitrary: acc p)
  case Nil
  then show ?case by simp
next
  case (Cons m ms)
  show ?case
  proof (cases "role m = ''assistant''")
    case True
    note asst = this
    show ?thesis
    proof (cases "is_nonempty (msg_text m)")
      case False
      then show ?thesis using asst Cons.IH [OF Cons.prems] by simp
    next
      case True
      show ?thesis
      proof (cases p)
        case None
        have "\<forall>q. Some m = Some q \<longrightarrow> is_nonempty (msg_text q)" using True by simp
        from Cons.IH [OF Cons.prems(1) this] show ?thesis using asst True None by simp
      next
        case (Some q)
        let ?q = "q\<lparr>msg_text := py_strip (msg_text q @ ''\<newline>\<newline>'' @ msg_text m)\<rparr>"
        have "\<forall>r. Some ?q = Some r \<longrightarrow> is_nonempty (msg_text r)"
          using is_nonempty_merge [OF True, of "msg_text q" "''\<newline>\<newline>''"] by simp
        from Cons.IH [OF Cons.prems(1) this] show ?thesis using asst True Some by simp
      qed
    qed
  next
    case False
    have n: "\<forall>q. (None :: 'a message_scheme option) = Some q \<longrightarrow> is_nonempty (msg_text q)" by simp
    show ?thesis
    proof (cases p)
      case None
      have "\<forall>x\<in>set (acc @ [m]). role x = ''assistant'' \<longrightarrow> is_nonempty (msg_text x)"
        using Cons.prems(1) False by auto
      from Cons.IH [OF this n] show ?thesis using False None by simp
    next
      case (Some q)
      have "\<forall>x\<in>set (acc @ [q, m]). role x = ''assistant'' \<longrightarrow> is_nonempty (msg_text x)"
        using Cons.prems False Some by auto
      from Cons.IH [OF this n] show ?thesis using False Some by simp
    qed
  qed
qed

lemma coalesce_nonempty:
  "x \<in> set (coalesce_assistant_runs ms) \<Longrightarrow> role x = ''assistant'' \<Longrightarrow> is_nonempty (msg_text x)"
proof -
  assume x: "x \<in> set (coalesce_assistant_runs ms)" and r: "role x = ''assistant''"
  obtain c p where cp: "coalesce_loop ms [] None = (c, p)" by (cases "coalesce_loop ms [] None")
  have inv: "(\<forall>x\<in>set c. role x = ''assistant'' \<longrightarrow> is_nonempty (msg_text x))
     \<and> (\<forall>q. p = Some q \<longrightarrow> is_nonempty (msg_text q))"
    using coalesce_loop_nonempty [of "[]" None ms] cp by simp
  show ?thesis
  proof (cases p)
    case None
    then show ?thesis using x r inv cp by (simp add: coalesce_assistant_runs_def)
  next
    case (Some q)
    then show ?thesis using x r inv cp by (auto simp: coalesce_assistant_runs_def)
  qed
qed

lemma qa_finalize_proj:
  "map (\<lambda>p. (turn_index p, user p, assistant p)) (qa_finalize ms1 s) =
   map (\<lambda>p. (turn_index p, user p, assistant p)) (qa_finalize ms2 s)"
  by (simp add: qa_finalize_def)

lemma coalesce_three:
  assumes "role a = ''assistant''" "role b = ''assistant''" "role c = ''assistant''"
    and "msg_text a \<noteq> []" "py_strip (msg_text a) = msg_text a"
    and "msg_text b \<noteq> []" "py_strip (msg_text b) = msg_text b"
    and "msg_text c \<noteq> []" "py_strip (msg_text c) = msg_text c"
  shows "coalesce_assistant_runs [a, b, c] =
    [a\<lparr>msg_text := msg_text a @ ''\<newline>\<newline>'' @ msg_text b @ ''\<newline>\<newline>'' @ msg_text c\<rparr>]"
proof -
  have ne: "is_nonempty (msg_text a)" "is_nonempty (msg_text b)" "is_nonempty (msg_text c)"
    using assms by (simp_all add: is_nonempty_def)
  have ab: "py_strip (msg_text a @ ''\<newline>\<newline>'' @ msg_text b) = msg_text a @ ''\<newline>\<newline>'' @ msg_text b"
    using assms by (intro py_strip_glue) simp_all
  have ab_ne: "msg_text a @ ''\<newline>\<newline>'' @ msg_text b \<noteq> []" by simp
  have abc: "py_strip ((msg_text a @ ''\<newline>\<newline>'' @ msg_text b) @ ''\<newline>\<newline>'' @ msg_text c)
      = (msg_text a @ ''\<newline>\<newline>'' @ msg_text b) @ ''\<newline>\<newline>'' @ msg_text c"
    by (rule py_strip_glue [OF ab ab_ne assms(9) assms(8)])
  show ?thesis
    using assms(1-3) ne ab abc by (simp add: coalesce_assistant_runs_def)
qed

text \<open>
  C2: three consecutive non-empty assistant messages whose texts carry no leading or
  trailing whitespace (such as \<open>A\<close>, \<open>B\<close>, \<open>C\<close>) coalesce into one assistant message
  whose text is the texts joined by a blank line, in order; an empty or whitespace-only
  assistant message anywhere in the input changes neither the output of
  \<open>coalesce_assistant_runs\<close> nor the turns built from it, and no assistant message of the
  output is empty.
\<close>

theorem coalesce_assistant_runs_merge_and_drop:
  "(role a = ''assistant'' \<and> role b = ''assistant'' \<and> role c = ''assistant'' \<and>
    msg_text a \<noteq> [] \<and> py_strip (msg_text a) = msg_text a \<and>
    msg_text b \<noteq> [] \<and> py_strip (msg_text b) = msg_text b \<and>
    msg_text c \<noteq> [] \<and> py_strip (msg_text c) = msg_text c \<longrightarrow>
    coalesce_assistant_runs [a, b, c] =
      [a\<lparr>msg_text := msg_text a @ ''\<newline>\<newline>'' @ msg_text b @ ''\<newline>\<newline>'' @ msg_text c\<rparr>])
   \<and> (role m = ''assistant'' \<and> \<not> is_nonempty (msg_text m) \<longrightarrow>
        coalesce_assistant_runs (xs @ m # ys) = coalesce_assistant_runs (xs @ ys) \<and>
        map (\<lambda>p. (turn_index p, user p, assistant p)) (build_qa_pairs (xs @ m # ys)) =
        map (\<lambda>p. (turn_index p, user p, assistant p)) (build_qa_pairs (xs @ ys)))
   \<and> (\<forall>x\<in>set (coalesce_assistant_runs ms). role x = ''assistant'' \<longrightarrow> is_nonempty (msg_text x))"
proof (intro conjI impI ballI)
  assume "role a = ''assistant'' \<and> role b = ''assistant'' \<and> role c = ''assistant'' \<and>
    msg_text a \<noteq> [] \<and> py_strip (msg_text a) = msg_text a \<and>
    msg_text b \<noteq> [] \<and> py_strip (msg_text b) = msg_text b \<and>
    msg_text c \<noteq> [] \<and> py_strip (msg_text c) = msg_text c"
  then show "coalesce_assistant_runs [a, b, c] =
      [a\<lparr>msg_text := msg_text a @ ''\<newline>\<newline>'' @ msg_text b @ ''\<newline>\<newline>'' @ msg_text c\<rparr>]"
    by (intro coalesce_three) simp_all
next
  assume h: "role m = ''assistant'' \<and> \<not> is_nonempty (msg_text m)"
  then show c: "coalesce_assistant_runs (xs @ m # ys) = coalesce_assistant_runs (xs @ ys)"
    by (simp add: coalesce_assistant_runs_def coalesce_loop_drop_empty)
  show "map (\<lambda>p. (turn_index p, user p, assistant p)) (build_qa_pairs (xs @ m # ys)) =
        map (\<lambda>p. (turn_index p, user p, assistant p)) (build_qa_pairs (xs @ ys))"
    unfolding build_qa_pairs_def c by (rule qa_finalize_proj)
next
  fix x assume "x \<in> set (coalesce_assistant_runs ms)" "role x = ''assistant''"
  then show "is_nonempty (msg_text x)" by (rule coalesce_nonempty)
qed

theorem coalesce_assistant_runs_merge_and_drop_witness:
  "coalesce_assistant_runs
     [\<lparr>composer_id = ''c'', role = ''assistant'', msg_text = ''A''\<rparr>,
      \<lparr>composer_id = ''c'', role = ''assistant'', msg_text = ''B''\<rparr>,
      \<lparr>composer_id = ''c'', role = ''assistant'', msg_text = ''C''\<rparr>] =
     [\<lparr>composer_id = ''c'', role = ''assistant'', msg_text = ''A\<newline>\<newline>B\<newline>\<newline>C''\<rparr>] \<and>
   coalesce_assistant_runs
     [\<lparr>composer_id = ''c'', role = ''assistant'', msg_text = ''A''\<rparr>,
      \<lparr>composer_id = ''c'', role = ''assistant'', msg_text = '' ''\<rparr>,
      \<lparr>composer_id = ''c'', role = ''assistant'', msg_text = ''B''\<rparr>,
      \<lparr>composer_id = ''c'', role = ''assistant'', msg_text = ''C''\<rparr>] =
     [\<lparr>composer_id = ''c'', role = ''assistant'', msg_text = ''A\<newline>\<newline>B\<newline>\<newline>C''\<rparr>]"
proof -
  let ?A = "\<lparr>composer_id = ''c'', role = ''assistant'', msg_text = ''A''\<rparr>"
  let ?B = "\<lparr>composer_id = ''c'', role = ''assistant'', msg_text = ''B''\<rparr>"
  let ?C = "\<lparr>composer_id = ''c'', role = ''assistant'', msg_text = ''C''\<rparr>"
  let ?E = "\<lparr>composer_id = ''c'', role = ''assistant'', msg_text = '' ''\<rparr>"
  have s: "py_strip ''A'' = ''A''" "py_strip ''B'' = ''B''" "py_strip ''C'' = ''C''"
    "py_strip '' '' = []"
    by (simp_all add: py_strip_def py_lstrip_def py_rstrip_def py_isspace_def)
  have e: "\<not> is_nonempty (msg_text ?E)" by (simp add: is_nonempty_def s)
  note t = coalesce_assistant_runs_merge_and_drop [of ?A ?B ?C ?E "[?A]" "[?B, ?C]" "[?A]"]
  have 1: "coalesce_assistant_runs [?A, ?B, ?C] =
      [\<lparr>composer_id = ''c'', role = ''assistant'', msg_text = ''A\<newline>\<newline>B\<newline>\<newline>C''\<rparr>]"
    using t s by simp
  have 2: "coalesce_assistant_runs [?A, ?E, ?B, ?C] = coalesce_assistant_runs [?A, ?B, ?C]"
    using t e by simp
  show ?thesis unfolding 2 using 1 by simp
qed

section \<open>Properties of the sparse scorer\<close>

lemma split_ws_no_empty: "[] \<notin> set (split_ws cur s)"
  by (induction s arbitrary: cur) auto

lemma starts_with_iff: "starts_with s tok \<longleftrightarrow> (\<exists>ss. s = tok @ ss)"
  by (induction s tok rule: starts_with.induct) auto

lemma py_contains_iff: "py_contains tok s \<longleftrightarrow> (\<exists>ps ss. s = ps @ tok @ ss)"
proof (induction s)
  case Nil
  then show ?case by auto
next
  case (Cons c cs)
  show ?case
  proof
    assume "py_contains tok (c # cs)"
    then consider "starts_with (c # cs) tok" | "py_contains tok cs" by auto
    then show "\<exists>ps ss. c # cs = ps @ tok @ ss"
    proof cases
      case 1
      then obtain ss where "c # cs = tok @ ss" using starts_with_iff by blast
      then have "c # cs = [] @ tok @ ss" by simp
      then show ?thesis by blast
    next
      case 2
      then obtain ps ss where "cs = ps @ tok @ ss" using Cons.IH by blast
      then have "c # cs = (c # ps) @ tok @ ss" by simp
      then show ?thesis by blast
    qed
  next
    assume "\<exists>ps ss. c # cs = ps @ tok @ ss"
    then obtain ps ss where e: "c # cs = ps @ tok @ ss" by blast
    show "py_contains tok (c # cs)"
    proof (cases ps)
      case Nil
      then have "starts_with (c # cs) tok" using e starts_with_iff [of "c # cs" tok] by auto
      then show ?thesis by simp
    next
      case (Cons p ps')
      then have "cs = ps' @ tok @ ss" using e by simp
      then have "py_contains tok cs" using Cons.IH by blast
      then show ?thesis by simp
    qed
  qed
qed

lemma sum_ones: "sum_list (map (\<lambda>x. 1::int) xs) = int (length xs)"
  by (induction xs) auto

lemma score_count:
  "score query txt =
     int (length (filter (\<lambda>token. py_contains token (py_lower txt)) (py_split (py_lower query))))"
proof -
  have "filter (\<lambda>token. token \<noteq> [] \<and> py_contains token (py_lower txt)) (py_split (py_lower query))
      = filter (\<lambda>token. py_contains token (py_lower txt)) (py_split (py_lower query))"
    using split_ws_no_empty [of "[]" "py_lower query"]
    by (intro filter_cong) (auto simp: py_split_def)
  then show ?thesis by (simp add: score_def Let_def sum_ones)
qed

text \<open>
C5: \<open>_score(query, text)\<close> is the number of whitespace-split, lower-cased query tokens
  that occur as contiguous substrings of the lower-cased text; it is non-negative, and zero
  exactly when no query token is a substring of the text; the score of query
  \<open>hello world\<close> on \<open>say hello to everyone\<close> is 1.
\<close>

theorem score_is_token_overlap:
  "score query txt =
     int (length (filter (\<lambda>token. py_contains token (py_lower txt)) (py_split (py_lower query))))
   \<and> 0 \<le> score query txt
   \<and> (score query txt = 0 \<longleftrightarrow>
        (\<forall>token\<in>set (py_split (py_lower query)). \<not> py_contains token (py_lower txt)))
   \<and> (py_contains tok s \<longleftrightarrow> (\<exists>ps ss. s = ps @ tok @ ss))
   \<and> score ''hello world'' ''say hello to everyone'' = 1"
proof (intro conjI)
  show "score query txt =
     int (length (filter (\<lambda>token. py_contains token (py_lower txt)) (py_split (py_lower query))))"
    by (rule score_count)
  show "0 \<le> score query txt" by (simp add: score_count)
  show "score query txt = 0 \<longleftrightarrow>
        (\<forall>token\<in>set (py_split (py_lower query)). \<not> py_contains token (py_lower txt))"
    by (simp add: score_count filter_empty_conv)
  show "py_contains tok s \<longleftrightarrow> (\<exists>ps ss. s = ps @ tok @ ss)" by (rule py_contains_iff)
  show "score ''hello world'' ''say hello to everyone'' = 1" by code_simp
qed

theorem score_is_token_overlap_witness:
  "score ''Hello there'' ''well, hello'' = 1 \<and> score ''abc'' ''xyz'' = 0 \<and>
   \<not> py_contains ''abc'' ''xyz''"
proof -
  have a: "py_split (py_lower ''Hello there'') = [''hello'', ''there'']"
    "py_lower ''well, hello'' = ''well, hello''"
    "py_split (py_lower ''abc'') = [''abc'']" "py_lower ''xyz'' = ''xyz''"
    by code_simp+
  have b: "py_contains ''hello'' ''well, hello''" "\<not> py_contains ''there'' ''well, hello''"
    by code_simp+
  have 1: "score ''Hello there'' ''well, hello'' = 1"
    using score_is_token_overlap [of "''Hello there''" "''well, hello''" "''abc''" "''xyz''"]
    by (simp add: a b)
  have 2: "score ''abc'' ''xyz'' = 0 \<and> \<not> py_contains ''abc'' ''xyz''"
    using score_is_token_overlap [of "''abc''" "''xyz''" "''abc''" "''xyz''"]
    by (simp add: a)
  show ?thesis using 1 2 by simp
qed

section \<open>Properties of L2 normalisation\<close>

lemma map_raise_total:
  "(\<And>x. x \<in> set xs \<Longrightarrow> f x = Inr (g x)) \<Longrightarrow> map_raise f xs = Inr (map g xs)"
  by (induction xs) auto

lemma sum_sq_scaled:
  "sum_list (map (\<lambda>x. x * x) (map (\<lambda>x. x / d) xs)) = sum_list (map (\<lambda>x. x * x) xs) / (d * d)"
  for d :: real
  by (induction xs) (auto simp: add_divide_distrib)

lemma sum_sq_nonneg: "0 \<le> sum_list (map (\<lambda>x. x * x) xs)" for xs :: "real list"
  by (induction xs) auto

lemma sum_sq_zero: "(\<forall>x\<in>set xs. x = 0) \<Longrightarrow> sum_list (map (\<lambda>x. x * x) xs) = 0"
  for xs :: "real list"
  by (induction xs) auto

lemma l2_normalize_pos:
  assumes "0 < sum_list (map (\<lambda>x. x * x) vec)"
  shows "l2_normalize vec = Inr (map (\<lambda>x. x / sqrt (sum_list (map (\<lambda>x. x * x) vec))) vec)"
proof -
  let ?s = "sum_list (map (\<lambda>x. x * x) vec)"
  have d: "sqrt ?s \<noteq> 0" using assms by simp
  have "map_raise (\<lambda>x. py_truediv x (sqrt ?s)) vec = Inr (map (\<lambda>x. x / sqrt ?s) vec)"
    using d by (intro map_raise_total) (simp add: py_truediv_def)
  then show ?thesis using assms d by (simp add: l2_normalize_def Let_def)
qed

text \<open>
C10: \<open>l2_normalize\<close> always returns and never divides by zero: a vector whose sum of
  squares is at most zero (the all-zero and the empty vector among them) is returned
  unchanged; every other vector is returned with each component divided by the L2 norm,
  and the sum of squares of the result is 1 (over the reals).
\<close>

theorem l2_normalize_total_unit:
  "(\<exists>r. l2_normalize vec = Inr r)
   \<and> (sum_list (map (\<lambda>x. x * x) vec) \<le> 0 \<longrightarrow> l2_normalize vec = Inr vec)
   \<and> ((\<forall>x\<in>set vec. x = 0) \<longrightarrow> l2_normalize vec = Inr vec)
   \<and> l2_normalize [] = Inr []
   \<and> (0 < sum_list (map (\<lambda>x. x * x) vec) \<longrightarrow>
        l2_normalize vec = Inr (map (\<lambda>x. x / sqrt (sum_list (map (\<lambda>x. x * x) vec))) vec)
        \<and> sum_list (map (\<lambda>x. x * x)
             (map (\<lambda>x. x / sqrt (sum_list (map (\<lambda>x. x * x) vec))) vec)) = 1)"
proof -
  let ?s = "sum_list (map (\<lambda>x. x * x) vec)"
  have le: "?s \<le> 0 \<longrightarrow> l2_normalize vec = Inr vec"
    by (simp add: l2_normalize_def)
  have zero: "(\<forall>x\<in>set vec. x = 0) \<longrightarrow> l2_normalize vec = Inr vec"
    using sum_sq_zero [of vec] by (simp add: l2_normalize_def)
  have pos: "0 < ?s \<longrightarrow> l2_normalize vec = Inr (map (\<lambda>x. x / sqrt ?s) vec)"
    using l2_normalize_pos by blast
  have unit: "0 < ?s \<longrightarrow> sum_list (map (\<lambda>x. x * x) (map (\<lambda>x. x / sqrt ?s) vec)) = 1"
  proof
    assume p: "0 < ?s"
    have "sum_list (map (\<lambda>x. x * x) (map (\<lambda>x. x / sqrt ?s) vec)) = ?s / (sqrt ?s * sqrt ?s)"
      by (rule sum_sq_scaled)
    also have "\<dots> = 1" using p by simp
    finally show "sum_list (map (\<lambda>x. x * x) (map (\<lambda>x. x / sqrt ?s) vec)) = 1" .
  qed
  have total: "\<exists>r. l2_normalize vec = Inr r"
  proof (cases "?s \<le> 0")
    case True
    then show ?thesis using le by blast
  next
    case False
    then show ?thesis using pos by auto
  qed
  have nil: "l2_normalize [] = Inr []" by (simp add: l2_normalize_def)
  show ?thesis using total le zero nil pos unit by blast
qed

theorem l2_normalize_total_unit_witness:
  "l2_normalize [3, 4] = Inr [3 / 5, 4 / 5] \<and> l2_normalize [0, 0] = Inr [0, 0]"
proof -
  have s: "sum_list (map (\<lambda>x. x * x) [3, 4 :: real]) = 25" by simp
  have r: "sqrt 25 = 5" by (simp add: real_sqrt_unique)
  have 1: "l2_normalize [3, 4] = Inr [3 / 5, 4 / 5]"
    using l2_normalize_total_unit [of "[3, 4]"] unfolding s r by simp
  have 2: "l2_normalize [0, 0] = Inr [0, 0]"
    using l2_normalize_total_unit [of "[0, 0]"] by simp
  show ?thesis using 1 2 by simp
qed

section \<open>Properties of the cluster tree\<close>

lemma map_raise_length: "map_raise f xs = Inr ys \<Longrightarrow> length ys = length xs"
  by (induction xs arbitrary: ys) (auto split: sum.splits)

lemma kmeans_rounds_length:
  "length assign = length vecs \<Longrightarrow> length (fst (kmeans_rounds k vecs assign c0 c1)) = length vecs"
proof (induction k arbitrary: assign c0 c1)
  case 0
  then show ?case by simp
next
  case (Suc k)
  have a: "length (assign_pass vecs c0 c1) = length vecs" by (simp add: assign_pass_def)
  show ?case
    by (simp add: Let_def Suc.IH [OF a] split: prod.splits)
qed

lemma kmeans2_length: "length (fst (kmeans2 vecs iters)) = length vecs"
  by (simp add: kmeans2_def kmeans_rounds_length)

lemma left_right_length:
  "length assign = length idxs \<Longrightarrow>
   length (left_ids idxs assign) + length (right_ids idxs assign) = length idxs"
  using sum_length_filter_compl [of "\<lambda>(i, a). a = 0" "zip idxs assign"]
  by (simp add: left_ids_def right_ids_def case_prod_unfold)

lemma left_ids_subset: "set (left_ids idxs assign) \<subseteq> set idxs"
  by (auto simp: left_ids_def dest: set_zip_leftD)

lemma right_ids_subset: "set (right_ids idxs assign) \<subseteq> set idxs"
  by (auto simp: right_ids_def dest: set_zip_leftD)

lemma bisect_leaf:
  "depth \<le> 0 \<or> int (length idxs) \<le> max 2 min_size \<Longrightarrow>
   bisect_recursive vecs idxs depth min_size = Inr (Leaf (length idxs) idxs)"
  by (subst bisect_recursive.simps) simp

lemma bisect_empty_side:
  "map_raise (py_index vecs) idxs = Inr sub \<Longrightarrow>
   left_ids idxs (fst (kmeans2 sub 15)) = [] \<or> right_ids idxs (fst (kmeans2 sub 15)) = [] \<Longrightarrow>
   bisect_recursive vecs idxs depth min_size = Inr (Leaf (length idxs) idxs)"
  by (subst bisect_recursive.simps) auto

lemma bisect_node:
  assumes "bisect_recursive vecs idxs depth min_size = Inr (Node n l r)"
  shows "0 < depth \<and> max 2 min_size < int (length idxs) \<and>
    (\<exists>sub. map_raise (py_index vecs) idxs = Inr sub \<and>
       left_ids idxs (fst (kmeans2 sub 15)) \<noteq> [] \<and>
       right_ids idxs (fst (kmeans2 sub 15)) \<noteq> [] \<and>
       bisect_recursive vecs (left_ids idxs (fst (kmeans2 sub 15))) (depth - 1) min_size = Inr l \<and>
       bisect_recursive vecs (right_ids idxs (fst (kmeans2 sub 15))) (depth - 1) min_size = Inr r \<and>
       n = length idxs)"
  using assms
  by (subst (asm) bisect_recursive.simps) (auto split: if_splits sum.splits)

lemma bisect_inv:
  "bisect_recursive vecs idxs depth min_size = Inr t \<Longrightarrow>
   both_children_nonempty t \<and> cheight t \<le> nat depth \<and> csize t = length idxs"
proof (induction vecs idxs depth min_size arbitrary: t rule: bisect_recursive.induct)
  case (1 vecs idxs depth min_size)
  show ?case
  proof (cases t)
    case (Leaf n ids)
    then have "n = length idxs \<and> ids = idxs"
      using "1.prems"
      by (subst (asm) bisect_recursive.simps) (auto split: if_splits sum.splits)
    then show ?thesis using Leaf by simp
  next
    case (Node n l r)
    from bisect_node [OF "1.prems" [unfolded Node]]
    obtain sub where d: "0 < depth" and big: "max 2 min_size < int (length idxs)"
      and sub: "map_raise (py_index vecs) idxs = Inr sub"
      and ne: "left_ids idxs (fst (kmeans2 sub 15)) \<noteq> []"
        "right_ids idxs (fst (kmeans2 sub 15)) \<noteq> []"
      and l: "bisect_recursive vecs (left_ids idxs (fst (kmeans2 sub 15))) (depth - 1) min_size = Inr l"
      and r: "bisect_recursive vecs (right_ids idxs (fst (kmeans2 sub 15))) (depth - 1) min_size = Inr r"
      and n: "n = length idxs"
      by blast
    have c: "\<not> (depth \<le> 0 \<or> int (length idxs) \<le> max 2 min_size)" using d big by linarith
    have e: "\<not> (left_ids idxs (fst (kmeans2 sub 15)) = [] \<or> right_ids idxs (fst (kmeans2 sub 15)) = [])"
      using ne by simp
    have il: "both_children_nonempty l \<and> cheight l \<le> nat (depth - 1) \<and>
        csize l = length (left_ids idxs (fst (kmeans2 sub 15)))"
      using "1.IH"(1) [OF c sub e l] .
    have ir: "both_children_nonempty r \<and> cheight r \<le> nat (depth - 1) \<and>
        csize r = length (right_ids idxs (fst (kmeans2 sub 15)))"
      using "1.IH"(2) [OF c sub e l r] .
    have len: "length (fst (kmeans2 sub 15)) = length idxs"
      using kmeans2_length [of sub 15] map_raise_length [OF sub] by simp
    have sum: "csize l + csize r = length idxs"
      using il ir left_right_length [OF len] by simp
    have h: "Suc (max (cheight l) (cheight r)) \<le> nat depth" using il ir d by auto
    show ?thesis using Node n il ir sum ne h by simp
  qed
qed

lemma py_index_in_range:
  "- int (length xs) \<le> i \<Longrightarrow> i < int (length xs) \<Longrightarrow> \<exists>y. py_index xs i = Inr y"
  by (simp add: py_index_def)

lemma map_raise_ok:
  "(\<And>x. x \<in> set xs \<Longrightarrow> \<exists>y. f x = Inr y) \<Longrightarrow> \<exists>ys. map_raise f xs = Inr ys"
proof (induction xs)
  case Nil
  then show ?case by simp
next
  case (Cons x xs)
  obtain y where y: "f x = Inr y" using Cons.prems [of x] by auto
  obtain ys where ys: "map_raise f xs = Inr ys" using Cons by auto
  show ?case using y ys by simp
qed

lemma bisect_no_error:
  "\<forall>i\<in>set idxs. - int (length vecs) \<le> i \<and> i < int (length vecs) \<Longrightarrow>
   \<exists>t. bisect_recursive vecs idxs depth min_size = Inr t"
proof (induction vecs idxs depth min_size rule: bisect_recursive.induct)
  case (1 vecs idxs depth min_size)
  show ?case
  proof (cases "depth \<le> 0 \<or> int (length idxs) \<le> max 2 min_size")
    case True
    then show ?thesis using bisect_leaf by blast
  next
    case False
    obtain sub where sub: "map_raise (py_index vecs) idxs = Inr sub"
      using map_raise_ok [of idxs "py_index vecs"] py_index_in_range [of vecs] "1.prems" by blast
    show ?thesis
    proof (cases "left_ids idxs (fst (kmeans2 sub 15)) = [] \<or> right_ids idxs (fst (kmeans2 sub 15)) = []")
      case True
      then show ?thesis using bisect_empty_side [OF sub] by blast
    next
      case ne: False
      have rl: "\<forall>i\<in>set (left_ids idxs (fst (kmeans2 sub 15))). - int (length vecs) \<le> i \<and> i < int (length vecs)"
        using "1.prems" left_ids_subset by blast
      have rr: "\<forall>i\<in>set (right_ids idxs (fst (kmeans2 sub 15))). - int (length vecs) \<le> i \<and> i < int (length vecs)"
        using "1.prems" right_ids_subset by blast
      obtain l where l: "bisect_recursive vecs (left_ids idxs (fst (kmeans2 sub 15))) (depth - 1) min_size = Inr l"
        using "1.IH"(1) [OF False sub ne rl] by blast
      obtain r where r: "bisect_recursive vecs (right_ids idxs (fst (kmeans2 sub 15))) (depth - 1) min_size = Inr r"
        using "1.IH"(2) [OF False sub ne l rr] by blast
      have "bisect_recursive vecs idxs depth min_size = Inr (Node (length idxs) l r)"
        using False sub ne l r by (subst bisect_recursive.simps) simp
      then show ?thesis by blast
    qed
  qed
qed

text \<open>
C7: in every tree returned by \<open>_bisect_recursive\<close>: a subset of size at most the
  minimum-size threshold is a single leaf whatever the depth budget; an exhausted depth
  budget gives a leaf; a subset one side of whose 2-means assignment is empty becomes a
  leaf, not an error; an internal node exists only where both sides are non-empty, so
  every internal node has two non-empty children; and with indices in range no call
  raises.
\<close>

theorem bisect_recursive_leaves_and_splits:
  "(int (length idxs) \<le> min_size \<longrightarrow>
      bisect_recursive vecs idxs depth min_size = Inr (Leaf (length idxs) idxs))
   \<and> (depth \<le> 0 \<longrightarrow>
      bisect_recursive vecs idxs depth min_size = Inr (Leaf (length idxs) idxs))
   \<and> (map_raise (py_index vecs) idxs = Inr sub \<and>
       (left_ids idxs (fst (kmeans2 sub 15)) = [] \<or> right_ids idxs (fst (kmeans2 sub 15)) = []) \<longrightarrow>
      bisect_recursive vecs idxs depth min_size = Inr (Leaf (length idxs) idxs))
   \<and> (bisect_recursive vecs idxs depth min_size = Inr (Node n l r) \<longrightarrow>
        0 < depth \<and> min_size < int (length idxs) \<and>
        (\<exists>sub'. map_raise (py_index vecs) idxs = Inr sub' \<and>
           left_ids idxs (fst (kmeans2 sub' 15)) \<noteq> [] \<and>
           right_ids idxs (fst (kmeans2 sub' 15)) \<noteq> [] \<and>
           bisect_recursive vecs (left_ids idxs (fst (kmeans2 sub' 15))) (depth - 1) min_size = Inr l \<and>
           bisect_recursive vecs (right_ids idxs (fst (kmeans2 sub' 15))) (depth - 1) min_size = Inr r))
   \<and> (bisect_recursive vecs idxs depth min_size = Inr t \<longrightarrow>
        both_children_nonempty t \<and> cheight t \<le> nat depth \<and> csize t = length idxs)
   \<and> ((\<forall>i\<in>set idxs. - int (length vecs) \<le> i \<and> i < int (length vecs)) \<longrightarrow>
        (\<exists>t'. bisect_recursive vecs idxs depth min_size = Inr t'))"
proof (intro conjI impI)
  assume "int (length idxs) \<le> min_size"
  then have "depth \<le> 0 \<or> int (length idxs) \<le> max 2 min_size" by (simp add: max_def)
  then show "bisect_recursive vecs idxs depth min_size = Inr (Leaf (length idxs) idxs)"
    by (rule bisect_leaf)
next
  assume "depth \<le> 0"
  then show "bisect_recursive vecs idxs depth min_size = Inr (Leaf (length idxs) idxs)"
    by (intro bisect_leaf) simp
next
  assume "map_raise (py_index vecs) idxs = Inr sub \<and>
       (left_ids idxs (fst (kmeans2 sub 15)) = [] \<or> right_ids idxs (fst (kmeans2 sub 15)) = [])"
  then show "bisect_recursive vecs idxs depth min_size = Inr (Leaf (length idxs) idxs)"
    using bisect_empty_side by blast
next
  assume a: "bisect_recursive vecs idxs depth min_size = Inr (Node n l r)"
  show "0 < depth" using bisect_node [OF a] by simp
  show "min_size < int (length idxs)" using bisect_node [OF a] by simp
  show "\<exists>sub'. map_raise (py_index vecs) idxs = Inr sub' \<and>
           left_ids idxs (fst (kmeans2 sub' 15)) \<noteq> [] \<and>
           right_ids idxs (fst (kmeans2 sub' 15)) \<noteq> [] \<and>
           bisect_recursive vecs (left_ids idxs (fst (kmeans2 sub' 15))) (depth - 1) min_size = Inr l \<and>
           bisect_recursive vecs (right_ids idxs (fst (kmeans2 sub' 15))) (depth - 1) min_size = Inr r"
    using bisect_node [OF a] by blast
next
  assume a: "bisect_recursive vecs idxs depth min_size = Inr t"
  show "both_children_nonempty t" using bisect_inv [OF a] by simp
  show "cheight t \<le> nat depth" using bisect_inv [OF a] by simp
  show "csize t = length idxs" using bisect_inv [OF a] by simp
next
  assume "\<forall>i\<in>set idxs. - int (length vecs) \<le> i \<and> i < int (length vecs)"
  then show "\<exists>t'. bisect_recursive vecs idxs depth min_size = Inr t'"
    by (rule bisect_no_error)
qed

theorem bisect_recursive_leaves_and_splits_witness:
  "bisect_recursive [[1, 0], [1, 0], [0, 1]] [0, 1, 2] 1 5 = Inr (Leaf 3 [0, 1, 2])
   \<and> bisect_recursive [[1, 0], [1, 0], [0, 1]] [0, 1, 2] 0 0 = Inr (Leaf 3 [0, 1, 2])
   \<and> bisect_recursive [[1, 0], [1, 0], [1, 0]] [0, 1, 2] 3 0 = Inr (Leaf 3 [0, 1, 2])
   \<and> bisect_recursive [[1, 0], [1, 0], [0, 1]] [0, 1, 2] 1 0 =
        Inr (Node 3 (Leaf 2 [0, 1]) (Leaf 1 [2]))
   \<and> both_children_nonempty (Node 3 (Leaf 2 [0, 1]) (Leaf 1 [2]))"
proof -
  let ?V = "[[1, 0], [1, 0], [0, 1 :: real]]"
  let ?W = "[[1, 0], [1, 0], [1, 0 :: real]]"
  let ?t = "Node 3 (Leaf 2 [0, 1]) (Leaf 1 [2])"
  note th = bisect_recursive_leaves_and_splits
  have 1: "bisect_recursive ?V [0, 1, 2] 1 5 = Inr (Leaf 3 [0, 1, 2])"
    using th [where idxs = "[0, 1, 2]" and min_size = 5 and vecs = ?V and depth = 1
        and sub = ?V and n = 3 and l = "Leaf 2 [0, 1]" and r = "Leaf 1 [2]" and t = ?t]
    by simp
  have 2: "bisect_recursive ?V [0, 1, 2] 0 0 = Inr (Leaf 3 [0, 1, 2])"
    using th [where idxs = "[0, 1, 2]" and min_size = 0 and vecs = ?V and depth = 0
        and sub = ?V and n = 3 and l = "Leaf 2 [0, 1]" and r = "Leaf 1 [2]" and t = ?t]
    by simp
  have s: "map_raise (py_index ?W) [0, 1, 2] = Inr ?W" by code_simp
  have e: "right_ids [0, 1, 2] (fst (kmeans2 ?W 15)) = []" by code_simp
  have 3: "bisect_recursive ?W [0, 1, 2] 3 0 = Inr (Leaf 3 [0, 1, 2])"
    using th [where idxs = "[0, 1, 2]" and min_size = 0 and vecs = ?W and depth = 3
        and sub = ?W and n = 3 and l = "Leaf 2 [0, 1]" and r = "Leaf 1 [2]" and t = ?t] s e
    by simp
  have 4: "bisect_recursive ?V [0, 1, 2] 1 0 = Inr ?t" by code_simp
  have 5: "both_children_nonempty ?t"
    using th [where idxs = "[0, 1, 2]" and min_size = 0 and vecs = ?V and depth = 1
        and sub = ?V and n = 3 and l = "Leaf 2 [0, 1]" and r = "Leaf 1 [2]" and t = ?t] 4
    by blast
  show ?thesis using 1 2 3 4 5 by blast
qed

section \<open>Properties of reconstruction\<close>

lemma reconstruct_loop_append:
  "reconstruct_loop str_of conn cid (hs1 @ hs2) =
     (case reconstruct_loop str_of conn cid hs1 of
        Inl e \<Rightarrow> Inl e
      | Inr ms1 \<Rightarrow>
         (case reconstruct_loop str_of conn cid hs2 of
            Inl e \<Rightarrow> Inl e
          | Inr ms2 \<Rightarrow> Inr (ms1 @ ms2)))"
  by (induction hs1) (auto split: sum.splits)

lemma load_bubble_unresolved:
  "conn (''bubbleId:'' @ cid @ '':'' @ format_id str_of bubble_id) = None \<or>
   conn (''bubbleId:'' @ cid @ '':'' @ format_id str_of bubble_id) = Some Malformed \<Longrightarrow>
   load_bubble str_of conn cid bubble_id = JNull"
  by (auto simp: load_bubble_def)

lemma reconstruct_header_skip:
  assumes "conn (''bubbleId:'' @ cid @ '':'' @ format_id str_of (dict_get kvs ''bubbleId'')) = None \<or>
    conn (''bubbleId:'' @ cid @ '':'' @ format_id str_of (dict_get kvs ''bubbleId'')) = Some Malformed"
  shows "reconstruct_header str_of conn cid (JDict kvs) = Inr []"
  using assms load_bubble_unresolved [of conn cid str_of "dict_get kvs ''bubbleId''"]
  by (simp add: reconstruct_header_def)

lemma reconstruct_loop_skip:
  assumes "conn (''bubbleId:'' @ cid @ '':'' @ format_id str_of (dict_get kvs ''bubbleId'')) = None \<or>
    conn (''bubbleId:'' @ cid @ '':'' @ format_id str_of (dict_get kvs ''bubbleId'')) = Some Malformed"
  shows "reconstruct_loop str_of conn cid (hs1 @ JDict kvs # hs2) =
         reconstruct_loop str_of conn cid (hs1 @ hs2)"
  using assms reconstruct_header_skip [of conn cid str_of kvs]
  by (simp add: reconstruct_loop_append [of _ _ _ hs1] split: sum.splits)

lemma reconstruct_absent:
  assumes "conn (''composerData:'' @ cid) = None \<or> conn (''composerData:'' @ cid) = Some Malformed"
  shows "reconstruct_conversation str_of conn cid = Inr []"
  using assms by (auto simp: reconstruct_conversation_def load_composer_def)

lemma reconstruct_headers_list:
  assumes "conn (''composerData:'' @ cid) = Some (Document (JDict ckvs))"
    and "dict_get ckvs ''fullConversationHeadersOnly'' = JList hs"
  shows "reconstruct_conversation str_of conn cid = reconstruct_loop str_of conn cid hs"
proof (cases "ckvs = []")
  case True
  then have "hs = []" using assms(2) by (simp add: dict_get_def)
  then show ?thesis using assms True
    by (simp add: reconstruct_conversation_def load_composer_def)
next
  case False
  then show ?thesis using assms
    by (cases "hs = []") (simp_all add: reconstruct_conversation_def load_composer_def py_or_def)
qed

text \<open>
C8: \<open>reconstruct_conversation\<close> returns the empty list, and does not raise, when the
  conversation record is absent or does not parse; a header whose message blob is absent
  or does not parse contributes no message, and the result is the one obtained from the
  remaining headers.
\<close>

theorem reconstruct_conversation_absorbs_failures:
  "((conn (''composerData:'' @ cid) = None \<or> conn (''composerData:'' @ cid) = Some Malformed) \<longrightarrow>
      reconstruct_conversation str_of conn cid = Inr [])
   \<and> ((conn (''bubbleId:'' @ cid @ '':'' @ format_id str_of (dict_get kvs ''bubbleId'')) = None \<or>
        conn (''bubbleId:'' @ cid @ '':'' @ format_id str_of (dict_get kvs ''bubbleId'')) = Some Malformed) \<longrightarrow>
       reconstruct_header str_of conn cid (JDict kvs) = Inr [] \<and>
       reconstruct_loop str_of conn cid (hs1 @ JDict kvs # hs2) =
         reconstruct_loop str_of conn cid (hs1 @ hs2) \<and>
       (conn (''composerData:'' @ cid) = Some (Document (JDict ckvs)) \<and>
        dict_get ckvs ''fullConversationHeadersOnly'' = JList (hs1 @ JDict kvs # hs2) \<longrightarrow>
          reconstruct_conversation str_of conn cid = reconstruct_loop str_of conn cid (hs1 @ hs2)))"
proof (intro conjI impI)
  assume "conn (''composerData:'' @ cid) = None \<or> conn (''composerData:'' @ cid) = Some Malformed"
  then show "reconstruct_conversation str_of conn cid = Inr []" by (rule reconstruct_absent)
next
  assume a: "conn (''bubbleId:'' @ cid @ '':'' @ format_id str_of (dict_get kvs ''bubbleId'')) = None \<or>
        conn (''bubbleId:'' @ cid @ '':'' @ format_id str_of (dict_get kvs ''bubbleId'')) = Some Malformed"
  show "reconstruct_header str_of conn cid (JDict kvs) = Inr []"
    using a reconstruct_header_skip [of conn cid str_of kvs] by simp
  show s: "reconstruct_loop str_of conn cid (hs1 @ JDict kvs # hs2) =
         reconstruct_loop str_of conn cid (hs1 @ hs2)"
    using a reconstruct_loop_skip [of conn cid str_of kvs hs1 hs2] by simp
  assume "conn (''composerData:'' @ cid) = Some (Document (JDict ckvs)) \<and>
        dict_get ckvs ''fullConversationHeadersOnly'' = JList (hs1 @ JDict kvs # hs2)"
  then show "reconstruct_conversation str_of conn cid = reconstruct_loop str_of conn cid (hs1 @ hs2)"
    using reconstruct_headers_list [of conn cid ckvs "hs1 @ JDict kvs # hs2" str_of] s by simp
qed

theorem reconstruct_conversation_absorbs_failures_witness:
  "reconstruct_conversation (\<lambda>v. [])
     (\<lambda>k. if k = ''composerData:cid'' then
             Some (Document (JDict [(''fullConversationHeadersOnly'', JList
               [JDict [(''bubbleId'', JStr ''b1''), (''type'', JInt 1), (''serverBubbleId'', JInt 0)],
                JDict [(''bubbleId'', JStr ''bad''), (''type'', JInt 2), (''serverBubbleId'', JInt 1)],
                JDict [(''bubbleId'', JStr ''b2''), (''type'', JInt 2), (''serverBubbleId'', JInt 2)],
                JDict [(''bubbleId'', JStr ''missing''), (''type'', JInt 2),
                       (''serverBubbleId'', JInt 3)]])]))
           else if k = ''bubbleId:cid:b1'' then Some (Document (JDict [(''text'', JStr ''hello'')]))
           else if k = ''bubbleId:cid:bad'' then Some Malformed
           else if k = ''bubbleId:cid:b2'' then Some (Document (JDict [(''content'', JStr ''world'')]))
           else None) ''cid'' =
   Inr [\<lparr>rm_composer_id = ''cid'', rm_bubble_id = JStr ''b1'', rm_server_bubble_id = JInt 0,
         rm_role = ''user'', rm_text = JStr ''hello''\<rparr>,
        \<lparr>rm_composer_id = ''cid'', rm_bubble_id = JStr ''b2'', rm_server_bubble_id = JInt 2,
         rm_role = ''assistant'', rm_text = JStr ''world''\<rparr>]"
proof -
  let ?h1 = "JDict [(''bubbleId'', JStr ''b1''), (''type'', JInt 1), (''serverBubbleId'', JInt 0)]"
  let ?kbad = "[(''bubbleId'', JStr ''bad''), (''type'', JInt 2), (''serverBubbleId'', JInt 1)]"
  let ?h2 = "JDict [(''bubbleId'', JStr ''b2''), (''type'', JInt 2), (''serverBubbleId'', JInt 2)]"
  let ?kmiss = "[(''bubbleId'', JStr ''missing''), (''type'', JInt 2), (''serverBubbleId'', JInt 3)]"
  let ?ckvs = "[(''fullConversationHeadersOnly'', JList [?h1, JDict ?kbad, ?h2, JDict ?kmiss])]"
  let ?conn = "\<lambda>k. if k = ''composerData:cid'' then Some (Document (JDict ?ckvs))
           else if k = ''bubbleId:cid:b1'' then Some (Document (JDict [(''text'', JStr ''hello'')]))
           else if k = ''bubbleId:cid:bad'' then Some Malformed
           else if k = ''bubbleId:cid:b2'' then Some (Document (JDict [(''content'', JStr ''world'')]))
           else None"
  let ?f = "(\<lambda>v. []) :: json \<Rightarrow> string"
  have 1: "reconstruct_conversation ?f ?conn ''cid'' = reconstruct_loop ?f ?conn ''cid'' [?h1, JDict ?kbad, ?h2]"
    using reconstruct_conversation_absorbs_failures
      [of ?conn "''cid''" ?f ?kmiss "[?h1, JDict ?kbad, ?h2]" "[]" ?ckvs]
    by (simp add: dict_get_def)
  have 2: "reconstruct_loop ?f ?conn ''cid'' ([?h1] @ JDict ?kbad # [?h2]) =
      reconstruct_loop ?f ?conn ''cid'' ([?h1] @ [?h2])"
    using reconstruct_conversation_absorbs_failures
      [of ?conn "''cid''" ?f ?kbad "[?h1]" "[?h2]" ?ckvs]
    by (simp add: dict_get_def)
  have 3: "reconstruct_loop ?f ?conn ''cid'' [?h1, ?h2] =
     Inr [\<lparr>rm_composer_id = ''cid'', rm_bubble_id = JStr ''b1'', rm_server_bubble_id = JInt 0,
         rm_role = ''user'', rm_text = JStr ''hello''\<rparr>,
        \<lparr>rm_composer_id = ''cid'', rm_bubble_id = JStr ''b2'', rm_server_bubble_id = JInt 2,
         rm_role = ''assistant'', rm_text = JStr ''world''\<rparr>]"
    by (simp add: reconstruct_header_def dict_get_def load_bubble_def py_or_def bubble_role_def)
  show ?thesis using 1 2 3 by simp
qed

section \<open>Properties of the repository hint\<close>

lemma set_insert_desc: "set (insert_desc key x xs) = insert x (set xs)"
  by (induction xs) auto

lemma length_insert_desc: "length (insert_desc key x xs) = Suc (length xs)"
  by (induction xs) auto

lemma sorted_insert_desc:
  "sorted_wrt (\<lambda>a b. \<not> tuple_less (key a) (key b)) xs \<Longrightarrow>
   sorted_wrt (\<lambda>a b. \<not> tuple_less (key a) (key b)) (insert_desc key x xs)"
proof (induction xs)
  case Nil
  then show ?case by simp
next
  case (Cons y ys)
  show ?case
  proof (cases "tuple_less (key x) (key y)")
    case True
    have "\<not> tuple_less (key y) (key x)" using True by (auto simp: tuple_less_def)
    then show ?thesis using True Cons by (auto simp: set_insert_desc)
  next
    case False
    have "\<forall>z\<in>set ys. \<not> tuple_less (key x) (key z)"
      using False Cons.prems by (auto simp: tuple_less_def)
    then show ?thesis using False Cons.prems by simp
  qed
qed

lemma sort_reverse_sorted:
  "sorted_wrt (\<lambda>a b. \<not> tuple_less (key a) (key b)) (sort_reverse key xs)"
  unfolding sort_reverse_def by (induction xs) (simp_all add: sorted_insert_desc)

lemma sort_reverse_set: "set (sort_reverse key xs) = set xs"
  unfolding sort_reverse_def by (induction xs) (simp_all add: set_insert_desc)

lemma sort_reverse_length: "length (sort_reverse key xs) = length xs"
  unfolding sort_reverse_def by (induction xs) (simp_all add: length_insert_desc)

lemma sort_reverse_rank:
  "sorted_wrt (\<lambda>a b. fst (candidate_score b) \<le> fst (candidate_score a))
     (sort_reverse candidate_score cs)"
  by (rule sorted_wrt_mono_rel [OF _ sort_reverse_sorted [of candidate_score cs]])
     (auto simp: tuple_less_def)

lemma single_candidate:
  assumes "list_ex (\<lambda>p. py_contains p (py_lower k)) key_pat" "s \<noteq> []"
  shows "extract_repo_hint (JDict [(k, JStr s)]) =
    (case hint_of_candidate s of Some h \<Rightarrow> Some h | None \<Rightarrow> Some s)"
  using assms
  by (simp add: extract_repo_hint_def candidates_of_def is_candidate_def sort_reverse_def
      split: option.splits)

lemma hint_remote: "hint_of_candidate ''https://github.com/org/myrepo.git'' = Some ''myrepo''"
  by code_simp

lemma hint_path: "hint_of_candidate ''/home/u/projects/foo/bar'' = Some ''foo/bar''"
  by code_simp

lemma candidates_of_dict:
  "candidates_of (JDict kvs) =
     concat (map (\<lambda>(k, v).
         (case v of
            JStr s \<Rightarrow> (if s \<noteq> [] \<and> list_ex (\<lambda>p. py_contains p (py_lower k)) key_pat
                        then [s] else [])
          | _ \<Rightarrow> []) @ candidates_of v) kvs)"
proof (induction kvs)
  case Nil
  then show ?case by (simp add: candidates_of_def)
next
  case (Cons kv kvs)
  obtain k v where kv: "kv = (k, v)" by (cases kv)
  have "candidates_of (JDict (kv # kvs)) =
      concat (map (\<lambda>(k, v). case v of JStr s \<Rightarrow> [s] | _ \<Rightarrow> [])
        (filter is_candidate ((k, v) # walk_dict v)))
      @ candidates_of (JDict kvs)"
    by (simp add: candidates_of_def kv)
  also have "concat (map (\<lambda>(k, v). case v of JStr s \<Rightarrow> [s] | _ \<Rightarrow> [])
        (filter is_candidate ((k, v) # walk_dict v))) =
      (case v of
         JStr s \<Rightarrow> (if s \<noteq> [] \<and> list_ex (\<lambda>p. py_contains p (py_lower k)) key_pat
                     then [s] else [])
       | _ \<Rightarrow> []) @ candidates_of v"
    by (cases v) (simp_all add: candidates_of_def is_candidate_def)
  finally show ?case by (simp add: Cons.IH kv)
qed

lemma candidates_of_list: "candidates_of (JList xs) = concat (map candidates_of xs)"
  by (induction xs) (simp_all add: candidates_of_def)

lemma candidates_truthy: "candidates_of obj \<noteq> [] \<Longrightarrow> py_truthy obj"
  by (cases obj) (auto simp: candidates_of_def)

lemma top_candidate_first:
  assumes "c \<in> set cs" "\<forall>d\<in>set cs. d \<noteq> c \<longrightarrow> tuple_less (key d) (key c)"
  shows "\<exists>rest. sort_reverse key cs = c # rest"
proof -
  have s: "set (sort_reverse key cs) = set cs" by (rule sort_reverse_set)
  then obtain y ys where y: "sort_reverse key cs = y # ys"
    using assms(1) by (cases "sort_reverse key cs") auto
  have srt: "\<forall>z\<in>set ys. \<not> tuple_less (key y) (key z)"
    using sort_reverse_sorted [of key cs] unfolding y by simp
  have "y = c"
  proof (rule ccontr)
    assume n: "y \<noteq> c"
    have "y \<in> set cs" using s y by auto
    then have "tuple_less (key y) (key c)" using assms(2) n by blast
    moreover have "c \<in> set ys" using s y assms(1) n by auto
    ultimately show False using srt by blast
  qed
  then show ?thesis using y by blast
qed

lemma extract_top_candidate:
  assumes "c \<in> set (candidates_of obj)"
    "\<forall>d\<in>set (candidates_of obj). d \<noteq> c \<longrightarrow> tuple_less (candidate_score d) (candidate_score c)"
    "hint_of_candidate c = Some h"
  shows "extract_repo_hint obj = Some h"
proof -
  obtain rest where r: "sort_reverse candidate_score (candidates_of obj) = c # rest"
    using top_candidate_first [OF assms(1,2)] by blast
  have "candidates_of obj \<noteq> []" using assms(1) by auto
  then have "py_truthy obj" by (rule candidates_truthy)
  then show ?thesis by (simp add: extract_repo_hint_def r assms(3))
qed

lemma class_rank:
  "tuple_less (candidate_score d) (candidate_score c) =
     (fst (candidate_score d) < fst (candidate_score c)
      \<or> fst (candidate_score d) = fst (candidate_score c) \<and> length c < length d)"
  by (auto simp: tuple_less_def candidate_score_def)

lemma remote_is_git: "is_git ''https://github.com/org/myrepo.git''"
  by code_simp

lemma path_is_path:
  "is_path ''/home/u/projects/foo/bar'' \<and> \<not> is_git ''/home/u/projects/foo/bar''"
  by code_simp

text \<open>
C9 (as amended): the candidates of a composer object are the non-empty string values
  under a key that contains one of the patterns, at any depth of its dicts and lists, in
  document order.  When a candidate is ranked above every other candidate and a hint can
  be derived from it, \<open>extract_repo_hint\<close> returns that hint: \<open>myrepo\<close> when it is
  \<open>https://github.com/org/myrepo.git\<close> (the last URL segment with the \<open>.git\<close> suffix
  stripped), \<open>foo/bar\<close> when it is the path \<open>/home/u/projects/foo/bar\<close> (the last two path
  segments).  Git-remote-like candidates are ranked above path-like candidates, which are
  ranked above bare strings, and within one of these classes a shorter candidate is
  ranked above a longer one.
\<close>

theorem extract_repo_hint_first_ranked_candidate:
  "(c \<in> set (candidates_of obj)
      \<and> (\<forall>d\<in>set (candidates_of obj). d \<noteq> c \<longrightarrow>
            tuple_less (candidate_score d) (candidate_score c))
      \<and> hint_of_candidate c = Some h \<longrightarrow> extract_repo_hint obj = Some h)
   \<and> hint_of_candidate ''https://github.com/org/myrepo.git'' = Some ''myrepo''
   \<and> hint_of_candidate ''/home/u/projects/foo/bar'' = Some ''foo/bar''
   \<and> (''https://github.com/org/myrepo.git'' \<in> set (candidates_of obj)
      \<and> (\<forall>d\<in>set (candidates_of obj). d \<noteq> ''https://github.com/org/myrepo.git'' \<longrightarrow>
            \<not> is_git d \<or> length ''https://github.com/org/myrepo.git'' < length d)
      \<longrightarrow> extract_repo_hint obj = Some ''myrepo'')
   \<and> (''/home/u/projects/foo/bar'' \<in> set (candidates_of obj)
      \<and> (\<forall>d\<in>set (candidates_of obj). d \<noteq> ''/home/u/projects/foo/bar'' \<longrightarrow>
            \<not> is_git d \<and> (\<not> is_path d \<or> length ''/home/u/projects/foo/bar'' < length d))
      \<longrightarrow> extract_repo_hint obj = Some ''foo/bar'')
   \<and> candidates_of (JDict kvs) =
        concat (map (\<lambda>(k, v).
          (case v of
             JStr s \<Rightarrow> (if s \<noteq> [] \<and> list_ex (\<lambda>p. py_contains p (py_lower k)) key_pat
                         then [s] else [])
           | _ \<Rightarrow> []) @ candidates_of v) kvs)
   \<and> candidates_of (JList xs) = concat (map candidates_of xs)
   \<and> (list_ex (\<lambda>p. py_contains p (py_lower k)) key_pat \<longrightarrow>
      extract_repo_hint (JDict [(k, JStr ''https://github.com/org/myrepo.git'')]) = Some ''myrepo'' \<and>
      extract_repo_hint (JDict [(k, JStr ''/home/u/projects/foo/bar'')]) = Some ''foo/bar'')
   \<and> tuple_less (candidate_score a) (candidate_score b) =
        (fst (candidate_score a) < fst (candidate_score b)
         \<or> fst (candidate_score a) = fst (candidate_score b) \<and> length b < length a)
   \<and> fst (candidate_score s) = (if is_git s then 2 else if is_path s then 1 else 0)
   \<and> sorted_wrt (\<lambda>a b. \<not> tuple_less (candidate_score a) (candidate_score b))
         (sort_reverse candidate_score cs)
   \<and> sorted_wrt (\<lambda>a b. fst (candidate_score b) \<le> fst (candidate_score a))
         (sort_reverse candidate_score cs)
   \<and> set (sort_reverse candidate_score cs) = set cs
   \<and> length (sort_reverse candidate_score cs) = length cs
   \<and> extract_repo_hint
        (JDict [(''rootName'', JStr ''thing''),
                (''cwd'', JStr ''/home/u/projects/foo/bar''),
                (''gitRemote'', JStr ''https://github.com/org/myrepo.git'')]) = Some ''myrepo''
   \<and> extract_repo_hint
        (JDict [(''name'', JStr ''chat''),
                (''context'', JDict [(''repoUrl'', JStr ''https://github.com/org/myrepo.git'')]),
                (''tabs'', JList [JDict [(''workspacePath'', JStr ''/home/u/projects/foo/bar'')]])])
        = Some ''myrepo''"
proof (intro conjI impI)
  assume "c \<in> set (candidates_of obj)
      \<and> (\<forall>d\<in>set (candidates_of obj). d \<noteq> c \<longrightarrow>
            tuple_less (candidate_score d) (candidate_score c))
      \<and> hint_of_candidate c = Some h"
  then show "extract_repo_hint obj = Some h"
    using extract_top_candidate [of c obj h] by blast
next
  show "hint_of_candidate ''https://github.com/org/myrepo.git'' = Some ''myrepo''"
    by (rule hint_remote)
  show "hint_of_candidate ''/home/u/projects/foo/bar'' = Some ''foo/bar''"
    by (rule hint_path)
next
  let ?X = "''https://github.com/org/myrepo.git''"
  assume a: "?X \<in> set (candidates_of obj)
      \<and> (\<forall>d\<in>set (candidates_of obj). d \<noteq> ?X \<longrightarrow> \<not> is_git d \<or> length ?X < length d)"
  have "\<forall>d\<in>set (candidates_of obj). d \<noteq> ?X \<longrightarrow>
      tuple_less (candidate_score d) (candidate_score ?X)"
  proof (intro ballI impI)
    fix d assume "d \<in> set (candidates_of obj)" "d \<noteq> ?X"
    then have "\<not> is_git d \<or> length ?X < length d" using a by blast
    then show "tuple_less (candidate_score d) (candidate_score ?X)"
      using remote_is_git unfolding class_rank by (auto simp: candidate_score_def)
  qed
  then show "extract_repo_hint obj = Some ''myrepo''"
    using extract_top_candidate [of ?X obj "''myrepo''"] a hint_remote by blast
next
  let ?P = "''/home/u/projects/foo/bar''"
  assume a: "?P \<in> set (candidates_of obj)
      \<and> (\<forall>d\<in>set (candidates_of obj). d \<noteq> ?P \<longrightarrow>
            \<not> is_git d \<and> (\<not> is_path d \<or> length ?P < length d))"
  have "\<forall>d\<in>set (candidates_of obj). d \<noteq> ?P \<longrightarrow>
      tuple_less (candidate_score d) (candidate_score ?P)"
  proof (intro ballI impI)
    fix d assume "d \<in> set (candidates_of obj)" "d \<noteq> ?P"
    then have "\<not> is_git d \<and> (\<not> is_path d \<or> length ?P < length d)" using a by blast
    then show "tuple_less (candidate_score d) (candidate_score ?P)"
      using path_is_path unfolding class_rank by (auto simp: candidate_score_def)
  qed
  then show "extract_repo_hint obj = Some ''foo/bar''"
    using extract_top_candidate [of ?P obj "''foo/bar''"] a hint_path by blast
next
  show "candidates_of (JDict kvs) =
        concat (map (\<lambda>(k, v).
          (case v of
             JStr s \<Rightarrow> (if s \<noteq> [] \<and> list_ex (\<lambda>p. py_contains p (py_lower k)) key_pat
                         then [s] else [])
           | _ \<Rightarrow> []) @ candidates_of v) kvs)"
    by (rule candidates_of_dict)
  show "candidates_of (JList xs) = concat (map candidates_of xs)"
    by (rule candidates_of_list)
next
  assume k: "list_ex (\<lambda>p. py_contains p (py_lower k)) key_pat"
  show "extract_repo_hint (JDict [(k, JStr ''https://github.com/org/myrepo.git'')]) = Some ''myrepo''"
    using single_candidate [OF k, of "''https://github.com/org/myrepo.git''"] hint_remote by simp
  show "extract_repo_hint (JDict [(k, JStr ''/home/u/projects/foo/bar'')]) = Some ''foo/bar''"
    using single_candidate [OF k, of "''/home/u/projects/foo/bar''"] hint_path by simp
next
  show "tuple_less (candidate_score a) (candidate_score b) =
        (fst (candidate_score a) < fst (candidate_score b)
         \<or> fst (candidate_score a) = fst (candidate_score b) \<and> length b < length a)"
    by (rule class_rank)
  show "fst (candidate_score s) = (if is_git s then 2 else if is_path s then 1 else 0)"
    by (simp add: candidate_score_def)
  show "sorted_wrt (\<lambda>a b. \<not> tuple_less (candidate_score a) (candidate_score b))
         (sort_reverse candidate_score cs)"
    by (rule sort_reverse_sorted)
  show "sorted_wrt (\<lambda>a b. fst (candidate_score b) \<le> fst (candidate_score a))
         (sort_reverse candidate_score cs)"
    by (rule sort_reverse_rank)
  show "set (sort_reverse candidate_score cs) = set cs" by (rule sort_reverse_set)
  show "length (sort_reverse candidate_score cs) = length cs" by (rule sort_reverse_length)
  show "extract_repo_hint
        (JDict [(''rootName'', JStr ''thing''),
                (''cwd'', JStr ''/home/u/projects/foo/bar''),
                (''gitRemote'', JStr ''https://github.com/org/myrepo.git'')]) = Some ''myrepo''"
    by code_simp
  show "extract_repo_hint
        (JDict [(''name'', JStr ''chat''),
                (''context'', JDict [(''repoUrl'', JStr ''https://github.com/org/myrepo.git'')]),
                (''tabs'', JList [JDict [(''workspacePath'', JStr ''/home/u/projects/foo/bar'')]])])
        = Some ''myrepo''"
    by code_simp
qed

theorem extract_repo_hint_first_ranked_candidate_witness:
  "candidates_of
     (JDict [(''name'', JStr ''chat''),
             (''context'', JDict [(''repoUrl'', JStr ''https://github.com/org/myrepo.git'')]),
             (''tabs'', JList [JDict [(''workspacePath'', JStr ''/home/u/projects/foo/bar'')]]),
             (''rootName'', JStr ''thing'')]) =
     [''https://github.com/org/myrepo.git'', ''/home/u/projects/foo/bar'', ''thing'']
   \<and> extract_repo_hint
     (JDict [(''name'', JStr ''chat''),
             (''context'', JDict [(''repoUrl'', JStr ''https://github.com/org/myrepo.git'')]),
             (''tabs'', JList [JDict [(''workspacePath'', JStr ''/home/u/projects/foo/bar'')]]),
             (''rootName'', JStr ''thing'')]) = Some ''myrepo''
   \<and> extract_repo_hint
     (JDict [(''name'', JStr ''chat''),
             (''tabs'', JList [JDict [(''workspacePath'', JStr ''/home/u/projects/foo/bar'')]]),
             (''rootName'', JStr ''thing'')]) = Some ''foo/bar''
   \<and> extract_repo_hint (JDict [(''gitUrl'', JStr ''https://github.com/org/myrepo.git'')])
       = Some ''myrepo''"
proof -
  let ?X = "''https://github.com/org/myrepo.git''"
  let ?P = "''/home/u/projects/foo/bar''"
  let ?o1 = "JDict [(''name'', JStr ''chat''),
             (''context'', JDict [(''repoUrl'', JStr ?X)]),
             (''tabs'', JList [JDict [(''workspacePath'', JStr ?P)]]),
             (''rootName'', JStr ''thing'')]"
  let ?o2 = "JDict [(''name'', JStr ''chat''),
             (''tabs'', JList [JDict [(''workspacePath'', JStr ?P)]]),
             (''rootName'', JStr ''thing'')]"
  have c1: "candidates_of ?o1 = [?X, ?P, ''thing'']" by code_simp
  have h1: "?X \<in> set (candidates_of ?o1)
      \<and> (\<forall>d\<in>set (candidates_of ?o1). d \<noteq> ?X \<longrightarrow> \<not> is_git d \<or> length ?X < length d)"
    by code_simp
  have h2: "?P \<in> set (candidates_of ?o2)
      \<and> (\<forall>d\<in>set (candidates_of ?o2). d \<noteq> ?P \<longrightarrow>
            \<not> is_git d \<and> (\<not> is_path d \<or> length ?P < length d))"
    by code_simp
  have k: "list_ex (\<lambda>p. py_contains p (py_lower ''gitUrl'')) key_pat" by code_simp
  have 1: "extract_repo_hint ?o1 = Some ''myrepo''"
    by (rule mp [OF extract_repo_hint_first_ranked_candidate [where obj = ?o1,
          THEN conjunct2, THEN conjunct2, THEN conjunct2, THEN conjunct1] h1])
  have 2: "extract_repo_hint ?o2 = Some ''foo/bar''"
    by (rule mp [OF extract_repo_hint_first_ranked_candidate [where obj = ?o2,
          THEN conjunct2, THEN conjunct2, THEN conjunct2, THEN conjunct2, THEN conjunct1] h2])
  have 3: "extract_repo_hint (JDict [(''gitUrl'', JStr ?X)]) = Some ''myrepo''"
    by (rule conjunct1 [OF mp [OF extract_repo_hint_first_ranked_candidate [where k = "''gitUrl''",
          THEN conjunct2, THEN conjunct2, THEN conjunct2, THEN conjunct2, THEN conjunct2,
          THEN conjunct2, THEN conjunct2, THEN conjunct1] k]])
  show ?thesis by (intro conjI c1 1 2 3)
qed

text \<open>
  A composer object that contains the candidate \<open>https://github.com/org/myrepo.git\<close> and a
  second, shorter GitHub URL: the shorter one is ranked first, and the hint is \<open>b\<close>, not
  \<open>myrepo\<close>.
\<close>

theorem extract_repo_hint_shorter_remote_first:
  "candidates_of
     (JDict [(''repoUrl'', JStr ''https://github.com/org/myrepo.git''),
             (''remoteUrl'', JStr ''https://github.com/a/b'')]) =
     [''https://github.com/org/myrepo.git'', ''https://github.com/a/b'']
   \<and> extract_repo_hint
     (JDict [(''repoUrl'', JStr ''https://github.com/org/myrepo.git''),
             (''remoteUrl'', JStr ''https://github.com/a/b'')]) = Some ''b''"
  by code_simp

section \<open>Properties of the hybrid merge\<close>

lemma dict_set_keys:
  "map fst (dict_set d k v) = (if k \<in> set (map fst d) then map fst d else map fst d @ [k])"
proof -
  have "map fst (map (\<lambda>(k', v'). if k' = k then (k, v) else (k', v')) d) = map fst d"
    by (induction d) auto
  then show ?thesis by (simp add: dict_set_def)
qed

lemma dict_set_entries:
  "e \<in> set (dict_set d k v) \<Longrightarrow> e = (k, v) \<or> (e \<in> set d \<and> fst e \<noteq> k)"
  by (auto simp: dict_set_def split: if_splits)

lemma first_occurrence_snoc:
  "rev (remdups (rev (xs @ [k]))) =
     (if k \<in> set xs then rev (remdups (rev xs)) else rev (remdups (rev xs)) @ [k])"
  by simp

lemma remdups_drop_later: "k \<in> set B \<Longrightarrow> remdups (A @ k # B) = remdups (A @ B)"
  by (induction A) auto

lemma first_occurrence_step:
  "rev (remdups (rev ((if k \<in> set K then K else K @ [k]) @ R))) = rev (remdups (rev (K @ k # R)))"
proof (cases "k \<in> set K")
  case True
  then have "remdups (rev R @ k # rev K) = remdups (rev R @ rev K)"
    by (intro remdups_drop_later) simp
  then show ?thesis using True by simp
next
  case False
  then show ?thesis by simp
qed

lemma merge_sparse_keys:
  "map fst (merge_sparse d rs) = rev (remdups (rev (map fst d @ map sparse_id rs)))" if "distinct (map fst d)"
  using that
proof (induction rs arbitrary: d)
  case Nil
  then show ?case by (simp add: distinct_remdups_id)
next
  case (Cons r rs)
  have dist: "distinct (map fst (dict_set d (sparse_id r) (sparse_item r)))"
    using Cons.prems by (simp add: dict_set_keys)
  show ?case
    using Cons.IH [OF dist]
      first_occurrence_step [of "sparse_id r" "map fst d" "map sparse_id rs"]
    by (simp add: dict_set_keys)
qed

lemma merge_vec_keys:
  "map fst (merge_vec d rs) = rev (remdups (rev (map fst d @ map vec_id rs)))" if "distinct (map fst d)"
  using that
proof (induction rs arbitrary: d)
  case Nil
  then show ?case by (simp add: distinct_remdups_id)
next
  case (Cons r rs)
  let ?m = "(case map_of d (vec_id r) of Some m \<Rightarrow> m | None \<Rightarrow> vec_item r)\<lparr>vec_distance := Some (vr_distance r)\<rparr>"
  have dist: "distinct (map fst (dict_set d (vec_id r) ?m))"
    using Cons.prems by (simp add: dict_set_keys)
  show ?case
    using Cons.IH [OF dist]
      first_occurrence_step [of "vec_id r" "map fst d" "map vec_id rs"]
    by (simp add: dict_set_keys)
qed

lemma first_occurrence_append:
  "rev (remdups (rev (rev (remdups (rev xs)) @ ys))) = rev (remdups (rev (xs @ ys)))"
proof -
  have "remdups (A @ remdups B) = remdups (A @ B)" for A B :: "'a list"
    by (induction A) auto
  then show ?thesis by simp
qed

lemma merge_sparse_inv:
  assumes "\<forall>(k, m)\<in>set d. P k m" and "\<forall>r\<in>set rs. P (sparse_id r) (sparse_item r)"
  shows "\<forall>(k, m)\<in>set (merge_sparse d rs). P k m"
  using assms
proof (induction rs arbitrary: d)
  case Nil
  then show ?case by simp
next
  case (Cons r rs)
  have "\<forall>(k, m)\<in>set (dict_set d (sparse_id r) (sparse_item r)). P k m"
    using Cons.prems dict_set_entries [of _ d "sparse_id r" "sparse_item r"] by fastforce
  then show ?case using Cons.IH Cons.prems(2) by simp
qed

lemma merge_vec_inv:
  assumes "\<forall>(k, m)\<in>set d. P k m" and "K0 \<subseteq> fst ` set d"
    and "\<And>r m. r \<in> set rs \<Longrightarrow> P (vec_id r) m \<Longrightarrow> P (vec_id r) (m\<lparr>vec_distance := Some (vr_distance r)\<rparr>)"
    and "\<And>r. r \<in> set rs \<Longrightarrow> vec_id r \<notin> K0 \<Longrightarrow>
           P (vec_id r) ((vec_item r)\<lparr>vec_distance := Some (vr_distance r)\<rparr>)"
  shows "\<forall>(k, m)\<in>set (merge_vec d rs). P k m"
  using assms
proof (induction rs arbitrary: d)
  case Nil
  then show ?case by simp
next
  case (Cons r rs)
  let ?m = "(case map_of d (vec_id r) of Some m \<Rightarrow> m | None \<Rightarrow> vec_item r)\<lparr>vec_distance := Some (vr_distance r)\<rparr>"
  have pm: "P (vec_id r) ?m"
  proof (cases "map_of d (vec_id r)")
    case None
    then have "vec_id r \<notin> fst ` set d" by (simp add: map_of_eq_None_iff)
    then have "vec_id r \<notin> K0" using Cons.prems(2) by blast
    then show ?thesis using None Cons.prems(4) [of r] by simp
  next
    case (Some m)
    then have "(vec_id r, m) \<in> set d" by (rule map_of_SomeD)
    then have "P (vec_id r) m" using Cons.prems(1) by auto
    then show ?thesis using Some Cons.prems(3) [of r m] by simp
  qed
  have inv: "\<forall>(k, m)\<in>set (dict_set d (vec_id r) ?m). P k m"
    using Cons.prems(1) pm dict_set_entries [of _ d "vec_id r" ?m] by fastforce
  have "set (map fst d) \<subseteq> set (map fst (dict_set d (vec_id r) ?m))"
    by (simp only: dict_set_keys) auto
  then have keys: "K0 \<subseteq> fst ` set (dict_set d (vec_id r) ?m)"
    using Cons.prems(2) by auto
  show ?case
    using Cons.IH [OF inv keys] Cons.prems(3,4) by simp
qed

lemma merge_vec_marks:
  assumes "\<forall>(k, m)\<in>set d. k \<in> W \<longrightarrow> vec_distance m \<noteq> None"
  shows "\<forall>(k, m)\<in>set (merge_vec d rs). k \<in> W \<union> vec_id ` set rs \<longrightarrow> vec_distance m \<noteq> None"
  using assms
proof (induction rs arbitrary: d W)
  case Nil
  then show ?case by simp
next
  case (Cons r rs)
  let ?m = "(case map_of d (vec_id r) of Some m \<Rightarrow> m | None \<Rightarrow> vec_item r)\<lparr>vec_distance := Some (vr_distance r)\<rparr>"
  have "\<forall>(k, m)\<in>set (dict_set d (vec_id r) ?m). k \<in> insert (vec_id r) W \<longrightarrow> vec_distance m \<noteq> None"
    using Cons.prems dict_set_entries [of _ d "vec_id r" ?m] by fastforce
  from Cons.IH [OF this] show ?case by simp
qed

lemma hybrid_entries:
  assumes "(k, m) \<in> set (merge_vec (merge_sparse [] sp) vec)"
  shows "mi_id m = k
    \<and> (k \<in> sparse_id ` set sp \<longrightarrow> (\<exists>r\<in>set sp. sparse_id r = k \<and> sparse_score m = Some (sp_score r)))
    \<and> (k \<notin> sparse_id ` set sp \<longrightarrow> sparse_score m = None)
    \<and> (\<forall>x. vec_distance m = Some x \<longrightarrow> (\<exists>r\<in>set vec. vec_id r = k \<and> vr_distance r = x))
    \<and> (k \<in> vec_id ` set vec \<longrightarrow> vec_distance m \<noteq> None)"
proof -
  let ?S = "sparse_id ` set sp"
  let ?P = "\<lambda>k m. mi_id m = k
    \<and> (k \<in> ?S \<longrightarrow> (\<exists>r\<in>set sp. sparse_id r = k \<and> sparse_score m = Some (sp_score r)))
    \<and> (k \<notin> ?S \<longrightarrow> sparse_score m = None)
    \<and> (\<forall>x. vec_distance m = Some x \<longrightarrow> (\<exists>r\<in>set vec. vec_id r = k \<and> vr_distance r = x))"
  have s0: "\<forall>(k, m)\<in>set (merge_sparse [] sp). ?P k m"
    by (rule merge_sparse_inv) (auto simp: sparse_item_def)
  have keys: "map fst (merge_sparse [] sp) = rev (remdups (rev (map sparse_id sp)))"
    using merge_sparse_keys [of "[]" sp] by simp
  have "set (map fst (merge_sparse [] sp)) = ?S" unfolding keys by simp
  then have k0: "?S \<subseteq> fst ` set (merge_sparse [] sp)" by auto
  have v: "\<forall>(k, m)\<in>set (merge_vec (merge_sparse [] sp) vec). ?P k m"
  proof (rule merge_vec_inv [OF s0 k0])
    fix r m assume "r \<in> set vec" "?P (vec_id r) m"
    then show "?P (vec_id r) (m\<lparr>vec_distance := Some (vr_distance r)\<rparr>)" by auto
  next
    fix r assume "r \<in> set vec" "vec_id r \<notin> ?S"
    then show "?P (vec_id r) ((vec_item r)\<lparr>vec_distance := Some (vr_distance r)\<rparr>)"
      by (auto simp: vec_item_def)
  qed
  have mk: "\<forall>(k, m)\<in>set (merge_vec (merge_sparse [] sp) vec).
      k \<in> {} \<union> vec_id ` set vec \<longrightarrow> vec_distance m \<noteq> None"
    by (rule merge_vec_marks) simp
  show ?thesis using assms v mk by fastforce
qed

lemma hybrid_ids:
  "map mi_id (hybrid_merge sp vec) = rev (remdups (rev (map sparse_id sp @ map vec_id vec)))"
proof -
  let ?d = "merge_vec (merge_sparse [] sp) vec"
  have "\<forall>e\<in>set ?d. mi_id (snd e) = fst e" using hybrid_entries [of _ _ sp vec] by auto
  then have "map mi_id (map snd ?d) = map fst ?d" by (induction ?d) auto
  moreover have keys: "map fst (merge_sparse [] sp) = rev (remdups (rev (map sparse_id sp)))"
    using merge_sparse_keys [of "[]" sp] by simp
  moreover have "distinct (map fst (merge_sparse [] sp))" unfolding keys by simp
  ultimately show ?thesis
    using merge_vec_keys [of "merge_sparse [] sp" vec] first_occurrence_append
    by (simp add: hybrid_merge_def)
qed

text \<open>
C6: the hybrid merge is a union-join by identifier: the identifiers of the merged items
  are those of the sparse rows followed by the new ones of the vector rows, each once and
  in input order (nothing dropped, nothing re-ranked); an item carries a sparse score
  exactly when a sparse row has its identifier and a vector distance exactly when a vector
  row has it, and the values come from such rows; for sparse hits \<open>c1:1\<close>, \<open>c2:2\<close> and
  vector hits \<open>c1:1\<close>, \<open>c3:3\<close> the result is \<open>c1:1\<close> with both, \<open>c2:2\<close> with the sparse
  score only and \<open>c3:3\<close> with the distance only.
\<close>

theorem hybrid_merge_union_join:
  "map mi_id (hybrid_merge sp vec) = rev (remdups (rev (map sparse_id sp @ map vec_id vec)))
   \<and> set (map mi_id (hybrid_merge sp vec)) = sparse_id ` set sp \<union> vec_id ` set vec
   \<and> distinct (map mi_id (hybrid_merge sp vec))
   \<and> (\<forall>m\<in>set (hybrid_merge sp vec).
        (sparse_score m \<noteq> None \<longleftrightarrow> mi_id m \<in> sparse_id ` set sp) \<and>
        (vec_distance m \<noteq> None \<longleftrightarrow> mi_id m \<in> vec_id ` set vec) \<and>
        (\<forall>s. sparse_score m = Some s \<longrightarrow> (\<exists>r\<in>set sp. sparse_id r = mi_id m \<and> sp_score r = s)) \<and>
        (\<forall>x. vec_distance m = Some x \<longrightarrow> (\<exists>r\<in>set vec. vec_id r = mi_id m \<and> vr_distance r = x)))
   \<and> hybrid_merge
        [\<lparr>sp_composer_id = ''c1'', sp_turn_index = 1, sp_user_head = ''u1'',
          sp_assistant_head = ''a1'', sp_score = 3\<rparr>,
         \<lparr>sp_composer_id = ''c2'', sp_turn_index = 2, sp_user_head = ''u2'',
          sp_assistant_head = ''a2'', sp_score = 2\<rparr>]
        [\<lparr>vr_id = Some ''c1:1'', vr_composer_id = ''c1'', vr_turn_index = 1,
          vr_user_head = ''u1v'', vr_assistant_head = ''a1v'', vr_distance = 12 / 100\<rparr>,
         \<lparr>vr_id = Some ''c3:3'', vr_composer_id = ''c3'', vr_turn_index = 3,
          vr_user_head = ''u3'', vr_assistant_head = ''a3'', vr_distance = 2 / 10\<rparr>] =
       [\<lparr>mi_id = ''c1:1'', mi_composer_id = ''c1'', mi_turn_index = 1, mi_user_head = ''u1'',
          mi_assistant_head = ''a1'', sparse_score = Some 3, vec_distance = Some (12 / 100)\<rparr>,
         \<lparr>mi_id = ''c2:2'', mi_composer_id = ''c2'', mi_turn_index = 2, mi_user_head = ''u2'',
          mi_assistant_head = ''a2'', sparse_score = Some 2, vec_distance = None\<rparr>,
         \<lparr>mi_id = ''c3:3'', mi_composer_id = ''c3'', mi_turn_index = 3, mi_user_head = ''u3'',
          mi_assistant_head = ''a3'', sparse_score = None, vec_distance = Some (2 / 10)\<rparr>]"
proof (intro conjI ballI)
  have i: "show_int 1 = ''1''" "show_int 2 = ''2''" "show_int 3 = ''3''" by code_simp+
  show "hybrid_merge
        [\<lparr>sp_composer_id = ''c1'', sp_turn_index = 1, sp_user_head = ''u1'',
          sp_assistant_head = ''a1'', sp_score = 3\<rparr>,
         \<lparr>sp_composer_id = ''c2'', sp_turn_index = 2, sp_user_head = ''u2'',
          sp_assistant_head = ''a2'', sp_score = 2\<rparr>]
        [\<lparr>vr_id = Some ''c1:1'', vr_composer_id = ''c1'', vr_turn_index = 1,
          vr_user_head = ''u1v'', vr_assistant_head = ''a1v'', vr_distance = 12 / 100\<rparr>,
         \<lparr>vr_id = Some ''c3:3'', vr_composer_id = ''c3'', vr_turn_index = 3,
          vr_user_head = ''u3'', vr_assistant_head = ''a3'', vr_distance = 2 / 10\<rparr>] =
       [\<lparr>mi_id = ''c1:1'', mi_composer_id = ''c1'', mi_turn_index = 1, mi_user_head = ''u1'',
          mi_assistant_head = ''a1'', sparse_score = Some 3, vec_distance = Some (12 / 100)\<rparr>,
         \<lparr>mi_id = ''c2:2'', mi_composer_id = ''c2'', mi_turn_index = 2, mi_user_head = ''u2'',
          mi_assistant_head = ''a2'', sparse_score = Some 2, vec_distance = None\<rparr>,
         \<lparr>mi_id = ''c3:3'', mi_composer_id = ''c3'', mi_turn_index = 3, mi_user_head = ''u3'',
          mi_assistant_head = ''a3'', sparse_score = None, vec_distance = Some (2 / 10)\<rparr>]"
    by (simp add: hybrid_merge_def dict_set_def sparse_id_def vec_id_def sparse_item_def
        vec_item_def i)
next
  show ids: "map mi_id (hybrid_merge sp vec) = rev (remdups (rev (map sparse_id sp @ map vec_id vec)))"
    by (rule hybrid_ids)
  show "set (map mi_id (hybrid_merge sp vec)) = sparse_id ` set sp \<union> vec_id ` set vec"
    unfolding ids by auto
  show "distinct (map mi_id (hybrid_merge sp vec))" unfolding ids by simp
next
  fix m assume "m \<in> set (hybrid_merge sp vec)"
  then obtain k where km: "(k, m) \<in> set (merge_vec (merge_sparse [] sp) vec)"
    by (auto simp: hybrid_merge_def)
  note h = hybrid_entries [OF km]
  show "sparse_score m \<noteq> None \<longleftrightarrow> mi_id m \<in> sparse_id ` set sp" using h by auto
  show "vec_distance m \<noteq> None \<longleftrightarrow> mi_id m \<in> vec_id ` set vec"
  proof
    assume "vec_distance m \<noteq> None"
    then obtain x where "vec_distance m = Some x" by auto
    then obtain r where "r \<in> set vec" "vec_id r = k" using h by blast
    then have "k \<in> vec_id ` set vec" by blast
    then show "mi_id m \<in> vec_id ` set vec" using h by simp
  next
    assume "mi_id m \<in> vec_id ` set vec"
    then show "vec_distance m \<noteq> None" using h by simp
  qed
  show "\<forall>s. sparse_score m = Some s \<longrightarrow> (\<exists>r\<in>set sp. sparse_id r = mi_id m \<and> sp_score r = s)"
    using h by (cases "k \<in> sparse_id ` set sp") auto
  show "\<forall>x. vec_distance m = Some x \<longrightarrow> (\<exists>r\<in>set vec. vec_id r = mi_id m \<and> vr_distance r = x)"
    using h by auto
qed

theorem hybrid_merge_union_join_witness:
  "map mi_id (hybrid_merge
        [\<lparr>sp_composer_id = ''c1'', sp_turn_index = 1, sp_user_head = ''u1'',
          sp_assistant_head = ''a1'', sp_score = 3\<rparr>,
         \<lparr>sp_composer_id = ''c2'', sp_turn_index = 2, sp_user_head = ''u2'',
          sp_assistant_head = ''a2'', sp_score = 2\<rparr>]
        [\<lparr>vr_id = Some ''c1:1'', vr_composer_id = ''c1'', vr_turn_index = 1,
          vr_user_head = ''u1v'', vr_assistant_head = ''a1v'', vr_distance = 12 / 100\<rparr>,
         \<lparr>vr_id = Some ''c3:3'', vr_composer_id = ''c3'', vr_turn_index = 3,
          vr_user_head = ''u3'', vr_assistant_head = ''a3'', vr_distance = 2 / 10\<rparr>]) = [''c1:1'', ''c2:2'', ''c3:3'']
   \<and> map sparse_score (hybrid_merge
        [\<lparr>sp_composer_id = ''c1'', sp_turn_index = 1, sp_user_head = ''u1'',
          sp_assistant_head = ''a1'', sp_score = 3\<rparr>,
         \<lparr>sp_composer_id = ''c2'', sp_turn_index = 2, sp_user_head = ''u2'',
          sp_assistant_head = ''a2'', sp_score = 2\<rparr>]
        [\<lparr>vr_id = Some ''c1:1'', vr_composer_id = ''c1'', vr_turn_index = 1,
          vr_user_head = ''u1v'', vr_assistant_head = ''a1v'', vr_distance = 12 / 100\<rparr>,
         \<lparr>vr_id = Some ''c3:3'', vr_composer_id = ''c3'', vr_turn_index = 3,
          vr_user_head = ''u3'', vr_assistant_head = ''a3'', vr_distance = 2 / 10\<rparr>]) = [Some 3, Some 2, None]
   \<and> map vec_distance (hybrid_merge
        [\<lparr>sp_composer_id = ''c1'', sp_turn_index = 1, sp_user_head = ''u1'',
          sp_assistant_head = ''a1'', sp_score = 3\<rparr>,
         \<lparr>sp_composer_id = ''c2'', sp_turn_index = 2, sp_user_head = ''u2'',
          sp_assistant_head = ''a2'', sp_score = 2\<rparr>]
        [\<lparr>vr_id = Some ''c1:1'', vr_composer_id = ''c1'', vr_turn_index = 1,
          vr_user_head = ''u1v'', vr_assistant_head = ''a1v'', vr_distance = 12 / 100\<rparr>,
         \<lparr>vr_id = Some ''c3:3'', vr_composer_id = ''c3'', vr_turn_index = 3,
          vr_user_head = ''u3'', vr_assistant_head = ''a3'', vr_distance = 2 / 10\<rparr>]) = [Some (12 / 100), None, Some (2 / 10)]"
proof -
  let ?sp = "[\<lparr>sp_composer_id = ''c1'', sp_turn_index = 1, sp_user_head = ''u1'',
          sp_assistant_head = ''a1'', sp_score = 3\<rparr>,
         \<lparr>sp_composer_id = ''c2'', sp_turn_index = 2, sp_user_head = ''u2'',
          sp_assistant_head = ''a2'', sp_score = 2\<rparr>]"
  let ?vec = "[\<lparr>vr_id = Some ''c1:1'', vr_composer_id = ''c1'', vr_turn_index = 1,
          vr_user_head = ''u1v'', vr_assistant_head = ''a1v'', vr_distance = 12 / 100\<rparr>,
         \<lparr>vr_id = Some ''c3:3'', vr_composer_id = ''c3'', vr_turn_index = 3,
          vr_user_head = ''u3'', vr_assistant_head = ''a3'', vr_distance = 2 / 10\<rparr>]"
  show ?thesis
    using hybrid_merge_union_join [of ?sp ?vec] by simp
qed

section \<open>Properties of cached embeddings\<close>

lemma first_pass_spec:
  "first_pass H c model scope id_prefix its res missing =
     (res @ map (\<lambda>(i, t). case cached_vec c (embedding_cache_key H model scope (id_prefix @ show_nat i) t) of
                             Some v \<Rightarrow> v | None \<Rightarrow> []) its,
      missing @ filter (\<lambda>(i, t). cached_vec c (embedding_cache_key H model scope (id_prefix @ show_nat i) t) = None) its)"
proof (induction its arbitrary: res missing)
  case Nil
  then show ?case by simp
next
  case (Cons it its)
  obtain i t where it: "it = (i, t)" by (cases it)
  show ?case
    unfolding it
    by (simp add: Cons.IH cached_vec_def split: option.splits cached.splits)
qed

lemma store_chunk_append:
  "store_chunk H model scope id_prefix (xs @ ys) st =
     store_chunk H model scope id_prefix ys (store_chunk H model scope id_prefix xs st)"
  by (induction xs arbitrary: st) auto

lemma store_chunk_calls:
  "calls (store_chunk H model scope id_prefix zs st) = calls st"
  by (induction zs arbitrary: st) auto

lemma store_chunk_calls_update:
  "store_chunk H model scope id_prefix zs (st\<lparr>calls := x\<rparr>) =
     (store_chunk H model scope id_prefix zs st)\<lparr>calls := x\<rparr>"
proof (induction zs arbitrary: st)
  case Nil
  then show ?case by simp
next
  case (Cons z zs)
  obtain j u w where z: "z = ((j, u), w)" by (cases z) auto
  let ?st1 = "st\<lparr>results := (results st)[j := w],
           cache := (cache st)
             (embedding_cache_key H model scope (id_prefix @ show_nat j) u \<mapsto> CachedList w)\<rparr>"
  have eq: "(st\<lparr>calls := x\<rparr>)\<lparr>results := (results (st\<lparr>calls := x\<rparr>))[j := w],
           cache := (cache (st\<lparr>calls := x\<rparr>))
             (embedding_cache_key H model scope (id_prefix @ show_nat j) u \<mapsto> CachedList w)\<rparr>
      = ?st1\<lparr>calls := x\<rparr>"
    by (cases st) simp
  have "store_chunk H model scope id_prefix (z # zs) (st\<lparr>calls := x\<rparr>) =
      store_chunk H model scope id_prefix zs (?st1\<lparr>calls := x\<rparr>)"
    unfolding z store_chunk.simps eq ..
  also have "\<dots> = (store_chunk H model scope id_prefix zs ?st1)\<lparr>calls := x\<rparr>"
    by (rule Cons.IH)
  also have "\<dots> = (store_chunk H model scope id_prefix (z # zs) st)\<lparr>calls := x\<rparr>"
    unfolding z by simp
  finally show ?case .
qed

lemma store_chunk_length:
  "length (results (store_chunk H model scope id_prefix zs st)) = length (results st)"
  by (induction zs arbitrary: st) auto

lemma store_chunk_other:
  "i \<notin> set (map (fst \<circ> fst) zs) \<Longrightarrow>
   results (store_chunk H model scope id_prefix zs st) ! i = results st ! i"
  by (induction zs arbitrary: st) auto

lemma store_chunk_at:
  "distinct (map (fst \<circ> fst) zs) \<Longrightarrow> ((i, t), v) \<in> set zs \<Longrightarrow> i < length (results st) \<Longrightarrow>
   results (store_chunk H model scope id_prefix zs st) ! i = v"
proof (induction zs arbitrary: st)
  case Nil
  then show ?case by simp
next
  case (Cons z zs)
  obtain j u w where z: "z = ((j, u), w)" by (cases z) auto
  show ?case
  proof (cases "((i, t), v) \<in> set zs")
    case True
    then show ?thesis using Cons z by simp
  next
    case False
    then have e: "j = i" "u = t" "w = v" using Cons.prems(2) z by auto
    have "i \<notin> set (map (fst \<circ> fst) zs)" using Cons.prems(1) z e by simp
    then show ?thesis using z e Cons.prems(3) by (simp add: store_chunk_other)
  qed
qed

lemma store_chunk_cache_keep:
  "\<exists>v. cache st k = Some (CachedList v) \<Longrightarrow>
   \<exists>v. cache (store_chunk H model scope id_prefix zs st) k = Some (CachedList v)"
  by (induction zs arbitrary: st) auto

lemma store_chunk_cache_in:
  "((i, t), v) \<in> set zs \<Longrightarrow>
   \<exists>v'. cache (store_chunk H model scope id_prefix zs st)
          (embedding_cache_key H model scope (id_prefix @ show_nat i) t) = Some (CachedList v')"
proof (induction zs arbitrary: st)
  case Nil
  then show ?case by simp
next
  case (Cons z zs)
  obtain j u w where z: "z = ((j, u), w)" by (cases z) auto
  show ?case
  proof (cases "((i, t), v) \<in> set zs")
    case True
    then show ?thesis using Cons.IH z by simp
  next
    case False
    then have e: "j = i" "u = t" "w = v" using Cons.prems z by auto
    show ?thesis unfolding z e
      by (simp, rule store_chunk_cache_keep) simp
  qed
qed

lemma py_slice_chunk:
  "0 \<le> s \<Longrightarrow> 0 < b \<Longrightarrow> py_slice xs s (s + b) = take (nat b) (drop (nat s) xs)"
  by (auto simp: py_slice_def slice_bound_def min_def nat_add_distrib)

lemma zip_map_same: "zip xs (map g (map snd xs)) = map (\<lambda>x. (x, g (snd x))) xs"
  by (induction xs) auto

lemma embed_loop_spec:
  assumes bs: "0 < bs" and api: "\<forall>inputs. api model inputs = Inr (map E inputs)"
  shows "0 \<le> start \<Longrightarrow>
    embed_loop api H model scope id_prefix bs missing start st =
      Some (None,
        (store_chunk H model scope id_prefix
           (map (\<lambda>x. (x, E (snd x))) (drop (nat start) missing)) st)
        \<lparr>calls := calls st @ chunks_of (nat bs) (map snd (drop (nat start) missing))\<rparr>)"
proof (induction "length missing - nat start" arbitrary: start st rule: less_induct)
  case less
  show ?case
  proof (cases "start < int (length missing)")
    case False
    then have "drop (nat start) missing = []" using less.prems by simp
    then show ?thesis using False
      by (subst embed_loop.simps) (simp add: chunks_of.simps)
  next
    case True
    let ?tl = "drop (nat start) missing"
    let ?ch = "take (nat bs) ?tl"
    let ?rest = "drop (nat bs) ?tl"
    let ?f = "\<lambda>x. (x, E (snd x))"
    let ?c1 = "calls st @ [map snd ?ch]"
    let ?st1 = "store_chunk H model scope id_prefix (zip ?ch (map E (map snd ?ch)))
        (st\<lparr>calls := ?c1\<rparr>)"
    have ch: "py_slice missing start (start + bs) = ?ch"
      using less.prems bs by (rule py_slice_chunk)
    have ne: "?tl \<noteq> []" using True less.prems by simp
    have step: "embed_loop api H model scope id_prefix bs missing start st =
        embed_loop api H model scope id_prefix bs missing (start + bs) ?st1"
      using True api ch by (subst embed_loop.simps) (simp add: Let_def)
    have dec: "length missing - nat (start + bs) < length missing - nat start"
      using True bs less.prems by linarith
    have nn: "0 \<le> start + bs" using bs less.prems by simp
    have "nat (start + bs) = nat bs + nat start" using bs less.prems by linarith
    then have d: "drop (nat (start + bs)) missing = ?rest"
      by (simp only: drop_drop)
    have ih: "embed_loop api H model scope id_prefix bs missing (start + bs) ?st1 =
        Some (None,
          (store_chunk H model scope id_prefix (map ?f ?rest) ?st1)
          \<lparr>calls := calls ?st1 @ chunks_of (nat bs) (map snd ?rest)\<rparr>)"
      using less.hyps [OF dec nn, of ?st1] unfolding d .
    have st1: "?st1 = (store_chunk H model scope id_prefix (map ?f ?ch) st)\<lparr>calls := ?c1\<rparr>"
      by (simp only: zip_map_same store_chunk_calls_update)
    have app: "store_chunk H model scope id_prefix (map ?f ?rest)
          (store_chunk H model scope id_prefix (map ?f ?ch) st) =
        store_chunk H model scope id_prefix (map ?f ?tl) st"
    proof -
      have "map ?f ?tl = map ?f ?ch @ map ?f ?rest"
        by (simp only: map_append [symmetric] append_take_drop_id)
      then show ?thesis by (simp only: store_chunk_append)
    qed
    have chunks: "chunks_of (nat bs) (map snd ?tl) =
        map snd ?ch # chunks_of (nat bs) (map snd ?rest)"
      using ne bs by (subst chunks_of.simps) (simp add: take_map drop_map)
    have fin: "(store_chunk H model scope id_prefix (map ?f ?rest) ?st1)
          \<lparr>calls := calls ?st1 @ chunks_of (nat bs) (map snd ?rest)\<rparr> =
        (store_chunk H model scope id_prefix (map ?f ?tl) st)
          \<lparr>calls := calls st @ chunks_of (nat bs) (map snd ?tl)\<rparr>"
      unfolding st1 chunks
      by (simp only: store_chunk_calls_update app) simp
    show ?thesis unfolding step ih fin ..
  qed
qed

lemma concat_chunks_of: "0 < n \<Longrightarrow> concat (chunks_of n xs) = xs"
proof (induction n xs rule: chunks_of.induct)
  case (1 n xs)
  show ?case
  proof (cases "xs = []")
    case True
    then show ?thesis by (subst chunks_of.simps) simp
  next
    case False
    then show ?thesis
      using "1.prems" "1.IH" by (subst chunks_of.simps) simp
  qed
qed

lemma chunks_of_bounds: "call \<in> set (chunks_of n xs) \<Longrightarrow> call \<noteq> [] \<and> length call \<le> n"
proof (induction n xs rule: chunks_of.induct)
  case (1 n xs)
  show ?case
  proof (cases "n = 0 \<or> xs = []")
    case True
    then show ?thesis using "1.prems" by (subst (asm) chunks_of.simps) simp
  next
    case False
    then have "call = take n xs \<or> call \<in> set (chunks_of n (drop n xs))"
      using "1.prems" by (subst (asm) chunks_of.simps) simp
    then show ?thesis using False "1.IH" by auto
  qed
qed

lemma chunks_of_single: "0 < n \<Longrightarrow> chunks_of n [x] = [[x]]"
  by (subst chunks_of.simps, subst chunks_of.simps) simp

lemma zip_upt_nth: "zip [0..<length xs] xs = map (\<lambda>i. (i, xs ! i)) [0..<length xs]"
proof (rule nth_equalityI)
  show "length (zip [0..<length xs] xs) = length (map (\<lambda>i. (i, xs ! i)) [0..<length xs])"
    by simp
next
  fix i assume "i < length (zip [0..<length xs] xs)"
  then show "zip [0..<length xs] xs ! i = map (\<lambda>i. (i, xs ! i)) [0..<length xs] ! i"
    by simp
qed

lemma embed_texts_state:
  assumes "0 < bs" and "\<forall>inputs. api model inputs = Inr (map E inputs)"
  shows "embed_texts api H bs c texts model scope id_prefix =
    Some (None,
      (store_chunk H model scope id_prefix
         (map (\<lambda>x. (x, E (snd x)))
            (filter (\<lambda>(i, t). cached_vec c (embedding_cache_key H model scope (id_prefix @ show_nat i) t) = None)
               (zip [0..<length texts] texts)))
         \<lparr>results = map (\<lambda>(i, t). case cached_vec c (embedding_cache_key H model scope (id_prefix @ show_nat i) t) of
                             Some v \<Rightarrow> v | None \<Rightarrow> []) (zip [0..<length texts] texts),
           cache = c, calls = []\<rparr>)
      \<lparr>calls := chunks_of (nat bs)
         (map snd (filter (\<lambda>(i, t). cached_vec c (embedding_cache_key H model scope (id_prefix @ show_nat i) t) = None)
               (zip [0..<length texts] texts)))\<rparr>)"
proof -
  let ?its = "zip [0..<length texts] texts"
  let ?ms = "filter (\<lambda>(i, t). cached_vec c (embedding_cache_key H model scope (id_prefix @ show_nat i) t) = None) ?its"
  let ?res = "map (\<lambda>(i, t). case cached_vec c (embedding_cache_key H model scope (id_prefix @ show_nat i) t) of
                             Some v \<Rightarrow> v | None \<Rightarrow> []) ?its"
  let ?st0 = "\<lparr>results = ?res, cache = c, calls = []\<rparr>"
  have fp: "first_pass H c model scope id_prefix ?its [] [] = (?res, ?ms)"
    by (simp add: first_pass_spec)
  show ?thesis
  proof (cases "?ms = []")
    case True
    have "embed_texts api H bs c texts model scope id_prefix = Some (None, ?st0)"
      unfolding embed_texts_def fp using True by simp
    then show ?thesis using True by (simp add: chunks_of.simps)
  next
    case False
    have "embed_texts api H bs c texts model scope id_prefix =
        embed_loop api H model scope id_prefix bs ?ms 0 ?st0"
      unfolding embed_texts_def fp using False by simp
    then show ?thesis
      using assms
        embed_loop_spec [where bs = bs and api = api and model = model and E = E and start = 0
          and H = H and scope = scope and id_prefix = id_prefix and missing = ?ms and st = ?st0]
      by simp
  qed
qed

lemma embed_texts_correct:
  assumes bs: "0 < bs" and api: "\<forall>inputs. api model inputs = Inr (map E inputs)"
  shows "\<exists>st. embed_texts api H bs c texts model scope id_prefix = Some (None, st)
     \<and> length (results st) = length texts
     \<and> (\<forall>i<length texts. results st ! i =
           (case cached_vec c (text_key H model scope id_prefix texts i) of
              Some v \<Rightarrow> v | None \<Rightarrow> E (texts ! i)))
     \<and> calls st = chunks_of (nat bs)
           (map (\<lambda>i. texts ! i)
              (filter (\<lambda>i. cached_vec c (text_key H model scope id_prefix texts i) = None)
                 [0..<length texts]))
     \<and> (\<forall>i<length texts. cached_vec (cache st) (text_key H model scope id_prefix texts i) \<noteq> None)"
proof -
  let ?n = "length texts"
  let ?K = "text_key H model scope id_prefix texts"
  let ?P = "\<lambda>(i, t). cached_vec c (embedding_cache_key H model scope (id_prefix @ show_nat i) t) = None"
  let ?g = "\<lambda>(i, t). case cached_vec c (embedding_cache_key H model scope (id_prefix @ show_nat i) t) of
                             Some v \<Rightarrow> v | None \<Rightarrow> []"
  let ?its = "zip [0..<?n] texts"
  let ?ms = "filter ?P ?its"
  let ?f = "\<lambda>x. (x, E (snd x))"
  let ?init = "\<lparr>results = map ?g ?its, cache = c, calls = []\<rparr>"
  let ?mid = "store_chunk H model scope id_prefix (map ?f ?ms) ?init"
  let ?fin = "?mid\<lparr>calls := chunks_of (nat bs) (map snd ?ms)\<rparr>"
  let ?miss = "filter (\<lambda>i. cached_vec c (?K i) = None) [0..<?n]"
  have run: "embed_texts api H bs c texts model scope id_prefix = Some (None, ?fin)"
    by (rule embed_texts_state [where api = api and model = model and E = E, OF bs api])
  have its: "?its = map (\<lambda>i. (i, texts ! i)) [0..<?n]" by (rule zip_upt_nth)
  have ms: "?ms = map (\<lambda>i. (i, texts ! i)) ?miss"
    unfolding its by (simp add: filter_map comp_def text_key_def)
  have res0: "\<And>i. i < ?n \<Longrightarrow> results ?init ! i = (case cached_vec c (?K i) of Some v \<Rightarrow> v | None \<Rightarrow> [])"
    unfolding its by (simp add: text_key_def)
  have len: "length (results ?fin) = ?n"
    by (simp add: store_chunk_length)
  have dist: "distinct (map (fst \<circ> fst) (map ?f ?ms))"
    unfolding ms by (simp add: comp_def)
  have at: "results ?fin ! i =
      (case cached_vec c (?K i) of Some v \<Rightarrow> v | None \<Rightarrow> E (texts ! i))" if i: "i < ?n" for i
  proof (cases "cached_vec c (?K i)")
    case None
    then have "i \<in> set ?miss" using i by simp
    then have "((i, texts ! i), E (texts ! i)) \<in> set (map ?f ?ms)"
      unfolding ms by (auto simp: image_iff)
    then have "results ?mid ! i = E (texts ! i)"
      using dist i by (intro store_chunk_at) simp_all
    then show ?thesis using None by simp
  next
    case (Some v)
    then have "i \<notin> set ?miss" by simp
    then have "i \<notin> set (map (fst \<circ> fst) (map ?f ?ms))"
      unfolding ms by (simp add: comp_def)
    then have "results ?mid ! i = results ?init ! i" by (rule store_chunk_other)
    then show ?thesis using Some res0 [OF i] by simp
  qed
  have cl: "calls ?fin = chunks_of (nat bs) (map (\<lambda>i. texts ! i) ?miss)"
    unfolding ms by (simp add: comp_def)
  have ch: "cached_vec (cache ?fin) (?K i) \<noteq> None" if i: "i < ?n" for i
  proof -
    have "\<exists>v. cache ?mid (?K i) = Some (CachedList v)"
    proof (cases "cached_vec c (?K i)")
      case None
      then have "i \<in> set ?miss" using i by simp
      then have "((i, texts ! i), E (texts ! i)) \<in> set (map ?f ?ms)"
        unfolding ms by (auto simp: image_iff)
      then show ?thesis
        unfolding text_key_def by (rule store_chunk_cache_in)
    next
      case (Some v)
      then have "\<exists>v. cache ?init (?K i) = Some (CachedList v)"
        by (auto simp: cached_vec_def split: option.splits cached.splits)
      then show ?thesis by (rule store_chunk_cache_keep)
    qed
    then show ?thesis by (auto simp: cached_vec_def)
  qed
  show ?thesis
    using run len at cl ch by blast
qed

text \<open>
C4 (as amended): for a positive batch size and a service that answers each input with
  its vector, in order, \<open>embed_texts\<close> returns a list as long as \<open>texts\<close> whose entry
  \<open>i\<close> is the cached vector of \<open>texts[i]\<close> on a hit and the service's vector on a miss;
  the texts sent to the service are exactly the misses, in order, so their number is
  \<open>len(texts)\<close> minus the number of hits, in batches of at most the batch size; a single
  uncached text costs exactly one external call, and repeating the call with the same
  model, scope and identifier (\<open>id_prefix\<close> and position) costs none.
\<close>

theorem embed_texts_cache_hits_and_misses:
  assumes "0 < max_batch_size" and "\<forall>inputs. api model inputs = Inr (map E inputs)"
  shows "\<exists>st. embed_texts api H max_batch_size c texts model scope id_prefix = Some (None, st)
     \<and> length (results st) = length texts
     \<and> (\<forall>i<length texts. results st ! i =
           (case cached_vec c (text_key H model scope id_prefix texts i) of
              Some v \<Rightarrow> v | None \<Rightarrow> E (texts ! i)))
     \<and> concat (calls st) =
           map (\<lambda>i. texts ! i)
             (filter (\<lambda>i. cached_vec c (text_key H model scope id_prefix texts i) = None)
                [0..<length texts])
     \<and> length (concat (calls st)) =
           length texts -
           length (filter (\<lambda>i. cached_vec c (text_key H model scope id_prefix texts i) \<noteq> None)
                     [0..<length texts])
     \<and> (\<forall>call\<in>set (calls st). call \<noteq> [] \<and> int (length call) \<le> max_batch_size)
     \<and> (length texts = 1 \<and> cached_vec c (text_key H model scope id_prefix texts 0) = None \<longrightarrow>
           calls st = [texts])
     \<and> calls_issued (embed_texts api H max_batch_size (cache st) texts model scope id_prefix) = Some []"
proof -
  let ?K = "text_key H model scope id_prefix texts"
  let ?miss = "filter (\<lambda>i. cached_vec c (?K i) = None) [0..<length texts]"
  obtain st where run: "embed_texts api H max_batch_size c texts model scope id_prefix = Some (None, st)"
    and len: "length (results st) = length texts"
    and at: "\<forall>i<length texts. results st ! i =
           (case cached_vec c (?K i) of Some v \<Rightarrow> v | None \<Rightarrow> E (texts ! i))"
    and cl: "calls st = chunks_of (nat max_batch_size) (map (\<lambda>i. texts ! i) ?miss)"
    and ch: "\<forall>i<length texts. cached_vec (cache st) (?K i) \<noteq> None"
    using embed_texts_correct [where api = api and model = model and E = E and bs = max_batch_size
        and H = H and c = c and texts = texts and scope = scope and id_prefix = id_prefix] assms
    by blast
  have pos: "0 < nat max_batch_size" using assms(1) by simp
  have cc: "concat (calls st) = map (\<lambda>i. texts ! i) ?miss"
    unfolding cl by (rule concat_chunks_of [OF pos])
  have cnt: "length (concat (calls st)) =
      length texts - length (filter (\<lambda>i. cached_vec c (?K i) \<noteq> None) [0..<length texts])"
    using sum_length_filter_compl [of "\<lambda>i. cached_vec c (?K i) = None" "[0..<length texts]"]
    unfolding cc by simp
  have bnd: "\<forall>call\<in>set (calls st). call \<noteq> [] \<and> int (length call) \<le> max_batch_size"
    unfolding cl using chunks_of_bounds [of _ "nat max_batch_size"] assms(1) by fastforce
  have one: "length texts = 1 \<and> cached_vec c (?K 0) = None \<longrightarrow> calls st = [texts]"
  proof
    assume a: "length texts = 1 \<and> cached_vec c (?K 0) = None"
    then obtain t where t: "texts = [t]" by (cases texts) auto
    have "?miss = [0]" using a t by simp
    then show "calls st = [texts]" unfolding cl using t pos by (simp add: chunks_of_single)
  qed
  obtain st' where run': "embed_texts api H max_batch_size (cache st) texts model scope id_prefix = Some (None, st')"
    and cl': "calls st' = chunks_of (nat max_batch_size)
        (map (\<lambda>i. texts ! i) (filter (\<lambda>i. cached_vec (cache st) (?K i) = None) [0..<length texts]))"
    using embed_texts_correct [where api = api and model = model and E = E and bs = max_batch_size
        and H = H and c = "cache st" and texts = texts and scope = scope and id_prefix = id_prefix] assms
    by blast
  have "filter (\<lambda>i. cached_vec (cache st) (?K i) = None) [0..<length texts] = []"
    using ch by (simp add: filter_empty_conv)
  then have "calls st' = []" unfolding cl' by (simp add: chunks_of.simps)
  then have again: "calls_issued (embed_texts api H max_batch_size (cache st) texts model scope id_prefix) = Some []"
    unfolding run' by (simp add: calls_issued_def)
  show ?thesis using run len at cc cnt bnd one again by blast
qed

theorem embed_texts_cache_hits_and_misses_witness:
  "(0 :: int) < 128
   \<and> calls_issued (embed_texts dummy_embeddings id 128 Map.empty [''x''] ''m'' ''s'' ''0:'') = Some [[''x'']]
   \<and> calls_issued
        (embed_texts dummy_embeddings id 128
           (cache_after (embed_texts dummy_embeddings id 128 Map.empty [''x''] ''m'' ''s'' ''0:''))
           [''x''] ''m'' ''s'' ''0:'') = Some []"
proof -
  have b: "(0 :: int) < 128" by simp
  have d: "\<forall>inputs. dummy_embeddings ''m'' inputs = Inr (map (\<lambda>t. [1 / 10, 0]) inputs)"
    by (simp add: dummy_embeddings_def)
  have m: "cached_vec (Map.empty :: string \<Rightarrow> real cached option)
      (text_key id ''m'' ''s'' ''0:'' [''x''] 0) = None"
    by (simp add: cached_vec_def)
  obtain st where run: "embed_texts dummy_embeddings id 128 Map.empty [''x''] ''m'' ''s'' ''0:'' = Some (None, st)"
    and one: "calls st = [[''x'']]"
    and again: "calls_issued (embed_texts dummy_embeddings id 128 (cache st) [''x''] ''m'' ''s'' ''0:'') = Some []"
    using embed_texts_cache_hits_and_misses [where api = dummy_embeddings and model = "''m''"
        and E = "\<lambda>t. [1 / 10, 0]" and max_batch_size = 128 and H = id and c = Map.empty
        and texts = "[''x'']" and scope = "''s''" and id_prefix = "''0:''", OF b d] m
    by auto
  show ?thesis
    unfolding run using one again by (simp add: calls_issued_def cache_after_def)
qed

lemma dummy_run:
  assumes "cached_vec c (embedding_cache_key id ''m'' ''s'' (p @ ''0'') ''x'') = None"
  shows "embed_texts dummy_embeddings id 128 c [''x''] ''m'' ''s'' p =
    Some (None, \<lparr>results = [[1 / 10, 0]],
                 cache = c(embedding_cache_key id ''m'' ''s'' (p @ ''0'') ''x'' \<mapsto> CachedList [1 / 10, 0]),
                 calls = [[''x'']]\<rparr>)"
proof -
  have z: "show_nat 0 = ''0''" by code_simp
  have d: "\<forall>inputs. dummy_embeddings ''m'' inputs = Inr (map (\<lambda>t. [1 / 10, 0]) inputs)"
    by (simp add: dummy_embeddings_def)
  show ?thesis
    using assms
      embed_texts_state [where api = dummy_embeddings and model = "''m''"
        and E = "\<lambda>t. [1 / 10, 0]" and bs = 128 and H = id and c = c and texts = "[''x'']"
        and scope = "''s''" and id_prefix = p] d
    by (simp add: z chunks_of_single)
qed

text \<open>
  The cache key contains the identifier: the same text under the same model and scope but
  another \<open>id_prefix\<close> is a miss, and is sent to the service a second time.
\<close>

theorem embed_texts_same_text_other_identifier:
  "calls_issued (embed_texts dummy_embeddings id 128 Map.empty [''x''] ''m'' ''s'' ''0:'') = Some [[''x'']]
   \<and> calls_issued
        (embed_texts dummy_embeddings id 128
           (cache_after (embed_texts dummy_embeddings id 128 Map.empty [''x''] ''m'' ''s'' ''0:''))
           [''x''] ''m'' ''s'' ''1:'') = Some [[''x'']]"
proof -
  have 1: "embed_texts dummy_embeddings id 128 Map.empty [''x''] ''m'' ''s'' ''0:'' =
    Some (None, \<lparr>results = [[1 / 10, 0]],
                 cache = Map.empty(embedding_cache_key id ''m'' ''s'' (''0:'' @ ''0'') ''x'' \<mapsto> CachedList [1 / 10, 0]),
                 calls = [[''x'']]\<rparr>)"
    by (rule dummy_run) (simp add: cached_vec_def)
  have 2: "embed_texts dummy_embeddings id 128
      (Map.empty(embedding_cache_key id ''m'' ''s'' (''0:'' @ ''0'') ''x'' \<mapsto> CachedList [1 / 10, 0]))
      [''x''] ''m'' ''s'' ''1:'' =
    Some (None, \<lparr>results = [[1 / 10, 0]],
                 cache = (Map.empty(embedding_cache_key id ''m'' ''s'' (''0:'' @ ''0'') ''x'' \<mapsto> CachedList [1 / 10, 0]))
                    (embedding_cache_key id ''m'' ''s'' (''1:'' @ ''0'') ''x'' \<mapsto> CachedList [1 / 10, 0]),
                 calls = [[''x'']]\<rparr>)"
    by (rule dummy_run) (simp add: cached_vec_def embedding_cache_key_def hash_key_def)
  show ?thesis
    unfolding 1 using 2 by (simp add: calls_issued_def cache_after_def)
qed

section \<open>Properties of the index builders\<close>





































end
